theory Spec2Isabelle
  imports Main "HOL-Library.Sublist"
begin

section \<open>The part of Python's \<open>re\<close> module that the tool uses\<close>

text \<open>
  \<open>whatsapp_clone.py\<close> rewrites the text of \<open>.smali\<close> and \<open>.xml\<close> files with
  \<open>Pattern.sub\<close>. Its patterns are built from literal characters, capturing groups,
  alternation, the optional quantifier \<open>?\<close> and the negative lookahead \<open>(?!...)\<close>; there
  is no repetition operator. A compiled pattern is a value of \<open>regex\<close>; the number of a
  capturing group is the position of its opening parenthesis, as in Python.
\<close>

datatype py_exception = ReError | PermissionError | FileNotFoundError | OSError | ValueError
  | MarkupError

datatype regex = Eps | Chr char | Cat regex regex | Alt regex regex | Opt regex
  | Grp nat regex | NLook regex

type_synonym caps = "nat \<Rightarrow> string option"

text \<open>
  The backtracking matcher, in continuation-passing style: \<open>rmatch r s c k\<close> matches \<open>r\<close>
  at the front of \<open>s\<close> and hands the rest of the text and the captures to \<open>k\<close>; when \<open>k\<close>
  fails, the next choice of \<open>r\<close> is tried, in Python's order (the first alternative before
  the second, the greedy \<open>?\<close> before skipping).
\<close>

fun rmatch :: "regex \<Rightarrow> string \<Rightarrow> caps \<Rightarrow> (string \<Rightarrow> caps \<Rightarrow> (nat \<times> caps) option)
    \<Rightarrow> (nat \<times> caps) option" where
  "rmatch Eps s c k = k s c"
| "rmatch (Chr a) s c k = (case s of [] \<Rightarrow> None | x # xs \<Rightarrow> if x = a then k xs c else None)"
| "rmatch (Cat r1 r2) s c k = rmatch r1 s c (\<lambda>s' c'. rmatch r2 s' c' k)"
| "rmatch (Alt r1 r2) s c k =
     (case rmatch r1 s c k of Some m \<Rightarrow> Some m | None \<Rightarrow> rmatch r2 s c k)"
| "rmatch (Opt r) s c k = (case rmatch r s c k of Some m \<Rightarrow> Some m | None \<Rightarrow> k s c)"
| "rmatch (Grp n r) s c k =
     rmatch r s c (\<lambda>s' c'. k s' (c'(n \<mapsto> take (length s - length s') s)))"
| "rmatch (NLook r) s c k =
     (case rmatch r s c (\<lambda>s' c'. Some (0, c')) of Some m \<Rightarrow> None | None \<Rightarrow> k s c)"

text \<open>
  A match at the front of \<open>s\<close>: its length and its captures. With \<open>adv\<close> set, an empty
  match is refused (the \<open>must_advance\<close> flag of \<open>sub\<close>, set after an empty match).
\<close>

definition match_here :: "regex \<Rightarrow> bool \<Rightarrow> string \<Rightarrow> (nat \<times> caps) option" where
  "match_here r adv s =
     rmatch r s Map.empty
       (\<lambda>s' c. if adv \<and> length s' = length s then None else Some (length s - length s', c))"

fun groups :: "regex \<Rightarrow> nat" where
  "groups Eps = 0"
| "groups (Chr a) = 0"
| "groups (Cat r1 r2) = groups r1 + groups r2"
| "groups (Alt r1 r2) = groups r1 + groups r2"
| "groups (Opt r) = groups r"
| "groups (Grp n r) = Suc (groups r)"
| "groups (NLook r) = groups r"

subsection \<open>Replacement templates\<close>

text \<open>
  The replacement string of \<open>sub\<close> is parsed before any match is looked for: a backslash
  starts an escape (\<open>\1\<close> a group, \<open>\g<1>\<close> a group, \<open>\0\<close> and three octal digits a
  character, \<open>\n\<close> and its kin a control character, a backslash before another ASCII
  letter or at the end an error, a backslash before anything else both characters). A
  reference to a group that the pattern does not have is an error. Every failure of the
  parser is the exception \<open>re.error\<close>, here \<open>ReError\<close> (an unknown group name raises
  \<open>IndexError\<close> in Python; \<open>process_file\<close> catches both alike).
\<close>

datatype titem = TChr char | TGrp nat

abbreviation bslash :: char where
  "bslash \<equiv> CHR 0x5C"

abbreviation dquote :: char where
  "dquote \<equiv> CHR 0x22"

definition is_digit :: "char \<Rightarrow> bool" where
  "is_digit c = (c \<in> set ''0123456789'')"

definition is_octdigit :: "char \<Rightarrow> bool" where
  "is_octdigit c = (c \<in> set ''01234567'')"

definition is_ascii_letter :: "char \<Rightarrow> bool" where
  "is_ascii_letter c = (c \<in> set ''abcdefghijklmnopqrstuvwxyzABCDEFGHIJKLMNOPQRSTUVWXYZ'')"

definition digit_val :: "char \<Rightarrow> nat" where
  "digit_val c = of_char c - 48"

definition int_of_digits :: "nat \<Rightarrow> string \<Rightarrow> nat" where
  "int_of_digits b ds = foldl (\<lambda>n d. b * n + digit_val d) 0 ds"

definition addgroup :: "nat \<Rightarrow> nat \<Rightarrow> nat \<Rightarrow> py_exception + (titem list \<times> nat)" where
  "addgroup g index used = (if index > g then Inl ReError else Inr ([TGrp index], used))"

definition ESCAPES :: "(char \<times> char) list" where
  "ESCAPES = [(CHR ''a'', CHR 0x07), (CHR ''b'', CHR 0x08), (CHR ''f'', CHR 0x0C),
     (CHR ''n'', CHR 0x0A), (CHR ''r'', CHR 0x0D), (CHR ''t'', CHR 0x09),
     (CHR ''v'', CHR 0x0B), (bslash, bslash)]"

text \<open>
  \<open>template_escape g c rest\<close> reads the escape that starts with a backslash and the
  character \<open>c\<close>, in a template for a pattern with \<open>g\<close> groups: the items it stands for and
  how many characters of \<open>rest\<close> it takes.
\<close>

definition template_escape :: "nat \<Rightarrow> char \<Rightarrow> string \<Rightarrow> py_exception + (titem list \<times> nat)" where
  "template_escape g c rest =
    (if c = CHR ''g'' then
       (case rest of
          [] \<Rightarrow> Inl ReError
        | b # rest' \<Rightarrow>
            if b \<noteq> CHR ''<'' then Inl ReError
            else let name = takeWhile (\<lambda>x. x \<noteq> CHR ''>'') rest' in
              if length name = length rest' \<or> name = [] then Inl ReError
              else if list_all is_digit name
                then addgroup g (int_of_digits 10 name) (length name + 2)
                else Inl ReError)
     else if c = CHR ''0'' then
       (let ds = takeWhile is_octdigit (take 2 rest)
        in Inr ([TChr (char_of (int_of_digits 8 ds))], length ds))
     else if is_digit c then
       (case rest of
          [] \<Rightarrow> addgroup g (digit_val c) 0
        | d # rest' \<Rightarrow>
            if is_digit d then
              (case rest' of
                 [] \<Rightarrow> addgroup g (int_of_digits 10 [c, d]) 1
               | e # rest'' \<Rightarrow>
                   if is_octdigit c \<and> is_octdigit d \<and> is_octdigit e then
                     (let v = int_of_digits 8 [c, d, e]
                      in if v > 255 then Inl ReError else Inr ([TChr (char_of v)], 2))
                   else addgroup g (int_of_digits 10 [c, d]) 1)
            else addgroup g (digit_val c) 0)
     else
       (case map_of ESCAPES c of
          Some e \<Rightarrow> Inr ([TChr e], 0)
        | None \<Rightarrow>
            if is_ascii_letter c then Inl ReError else Inr ([TChr bslash, TChr c], 0)))"

fun parse_template :: "nat \<Rightarrow> string \<Rightarrow> py_exception + titem list" where
  "parse_template g [] = Inr []"
| "parse_template g [a] = (if a = bslash then Inl ReError else Inr [TChr a])"
| "parse_template g (a # c # rest) =
     (if a = bslash then
        (case template_escape g c rest of
           Inl e \<Rightarrow> Inl e
         | Inr (items, used) \<Rightarrow>
             (case parse_template g (drop used rest) of
                Inl e \<Rightarrow> Inl e
              | Inr more \<Rightarrow> Inr (items @ more)))
      else
        (case parse_template g (c # rest) of
           Inl e \<Rightarrow> Inl e
         | Inr more \<Rightarrow> Inr (TChr a # more)))"

text \<open>
  The text a template stands for at one match \<open>m\<close> with captures \<open>c\<close>; a group that took
  no part in the match gives the empty string.
\<close>

fun expand :: "titem list \<Rightarrow> string \<Rightarrow> caps \<Rightarrow> string" where
  "expand [] m c = []"
| "expand (TChr a # t) m c = a # expand t m c"
| "expand (TGrp n # t) m c =
     (if n = 0 then m else (case c n of None \<Rightarrow> [] | Some g \<Rightarrow> g)) @ expand t m c"

subsection \<open>Global substitution\<close>

lemma rmatch_cont:
  "rmatch r s c k = Some m \<Longrightarrow> \<exists>u s' c'. k s' c' = Some m \<and> s = u @ s'"
proof (induction r arbitrary: s c k)
  case (Chr a)
  then obtain xs where "s = [a] @ xs" "k xs c = Some m"
    by (cases s) (auto split: if_splits)
  then show ?case by blast
next
  case (Cat r1 r2)
  from Cat.IH(1)[OF Cat.prems[simplified]]
  obtain u1 s1 c1 where a: "rmatch r2 s1 c1 k = Some m" "s = u1 @ s1"
    by blast
  from Cat.IH(2)[OF a(1)] obtain u2 s2 c2 where b: "k s2 c2 = Some m" "s1 = u2 @ s2"
    by blast
  from a(2) b show ?case
    by (intro exI[of _ "u1 @ u2"] exI[of _ s2] exI[of _ c2]) simp
next
  case (Alt r1 r2)
  then show ?case by (auto split: option.splits)
next
  case (Opt r)
  then show ?case by (fastforce split: option.splits)
next
  case (Grp n r)
  from Grp.IH[OF Grp.prems[simplified]] show ?case by blast
next
  case (NLook r)
  then show ?case by (fastforce split: option.splits)
qed auto

lemma match_here_advance: "match_here r True s = Some (k, c) \<Longrightarrow> 0 < k"
  unfolding match_here_def by (drule rmatch_cont) (auto split: if_splits)

text \<open>
  \<open>sub_scan\<close> is the loop of \<open>Pattern.sub\<close>: the leftmost match from the current position
  is replaced and the scan goes on behind it; after an empty match the next match at the
  same position has to be non-empty.
\<close>

function sub_scan :: "regex \<Rightarrow> titem list \<Rightarrow> bool \<Rightarrow> string \<Rightarrow> string" where
  "sub_scan r t adv [] =
     (case match_here r adv [] of None \<Rightarrow> [] | Some (k, c) \<Rightarrow> expand t [] c)"
| "sub_scan r t adv (x # xs) =
     (case match_here r adv (x # xs) of
        None \<Rightarrow> x # sub_scan r t False xs
      | Some (k, c) \<Rightarrow>
          expand t (take k (x # xs)) c @
            (if k = 0 then sub_scan r t True (x # xs)
             else sub_scan r t False (drop k (x # xs))))"
  by pat_completeness auto
termination
proof (relation "measure (\<lambda>(r, t, adv, s). 2 * length s + (if adv then 0 else 1))", goal_cases)
  case (3 r t adv x xs m k c)
  then show ?case by (cases adv) (auto dest: match_here_advance)
qed auto

definition re_sub :: "regex \<Rightarrow> string \<Rightarrow> string \<Rightarrow> py_exception + string" where
  "re_sub r repl s =
     (case parse_template (groups r) repl of
        Inl e \<Rightarrow> Inl e
      | Inr t \<Rightarrow> Inr (sub_scan r t False s))"

text \<open>\<open>then_sub\<close> threads a buffer through the next substitution of a \<open>try\<close> block.\<close>

definition then_sub :: "py_exception + string \<Rightarrow> regex \<Rightarrow> string \<Rightarrow> py_exception + string" where
  "then_sub x r repl = (case x of Inl e \<Rightarrow> Inl e | Inr s \<Rightarrow> re_sub r repl s)"

subsection \<open>Patterns from strings\<close>

text \<open>
  \<open>lit s\<close> is the pattern \<open>re.compile(re.escape(s))\<close>, which matches the text \<open>s\<close> and
  nothing else. \<open>escape_replace d n s\<close> is
  \<open>re.compile(re.escape(s).replace('\\.', d))\<close> for a group \<open>d\<close>: every dot of \<open>s\<close> is
  escaped by \<open>re.escape\<close> and so becomes the group, numbered from \<open>n\<close> on; every other
  character stays a literal. \<open>alts\<close> is the alternation \<open>a|b|...\<close> of literal words.
\<close>

fun lit :: "string \<Rightarrow> regex" where
  "lit [] = Eps"
| "lit (a # as) = Cat (Chr a) (lit as)"

fun escape_replace :: "regex \<Rightarrow> nat \<Rightarrow> string \<Rightarrow> regex" where
  "escape_replace d n [] = Eps"
| "escape_replace d n (a # as) =
     (if a = CHR ''.'' then Cat (Grp n d) (escape_replace d (Suc n) as)
      else Cat (Chr a) (escape_replace d n as))"

fun alts :: "string list \<Rightarrow> regex" where
  "alts [] = Eps"
| "alts [w] = lit w"
| "alts (w # ws) = Alt (lit w) (alts ws)"

section \<open>The configuration and the two processors\<close>

record WhatsAppCloneConfig =
  root_folder :: string
  current_folder_name :: string
  new_package_name :: string
  new_folder_name :: string
  new_package_name_path :: string
  custom_search_pattern :: string
  max_workers :: int

definition OFFICIAL_MODULES :: "string list" where
  "OFFICIAL_MODULES =
    [''aborthooks'', ''adscreation'', ''anr'', ''audioRecording'', ''breakpad'', ''calling'',
     ''fieldstats'', ''filter'', ''infra'', ''jid'', ''media'', ''messagetranslation'',
     ''nativelibloader'', ''protocol'', ''pytorch'', ''stickers'', ''superpack'', ''unity'',
     ''util'', ''voipcalling'', ''wamsys'', ''executorch'', ''gwpasan'', ''voicetranscription'',
     ''AppShell'', ''GifHelper'', ''Mp4Ops'', ''NativeMediaHandler'', ''SmbAppShell'',
     ''SqliteShell'', ''StickyHeadersRecyclerView'', ''VideoFrameConverter'', ''ohai'',
     ''WaOhaiClient'', ''productinfra'', ''music'', ''api'', ''MusicApi'']"

text \<open>\<open>"Business" in self.config.current_folder_name\<close>: the job renames WhatsApp Business.\<close>

definition is_business :: "WhatsAppCloneConfig \<Rightarrow> bool" where
  "is_business cfg = sublist ''Business'' (current_folder_name cfg)"

text \<open>\<open>new_package_name.replace(".", "/")\<close>, as both setup functions compute the path form.\<close>

definition dots_to_slashes :: "string \<Rightarrow> string" where
  "dots_to_slashes s = map (\<lambda>a. if a = CHR ''.'' then CHR ''/'' else a) s"

abbreviation dot_or_slash :: regex where
  "dot_or_slash \<equiv> Alt (Chr CHR ''.'') (Chr CHR ''/'')"

subsection \<open>SmaliProcessor\<close>

record SmaliProcessor =
  smali_config :: WhatsAppCloneConfig
  package_pattern1 :: regex
  package_pattern2 :: regex
  official_package_pattern :: regex
  official_packageP_pattern :: regex

definition SmaliProcessor_init :: "WhatsAppCloneConfig \<Rightarrow> SmaliProcessor" where
  "SmaliProcessor_init cfg =
    \<lparr> smali_config = cfg,
      package_pattern1 =
        (if custom_search_pattern cfg \<noteq> [] then
           escape_replace (Chr CHR ''/'') 1 (custom_search_pattern cfg)
         else if is_business cfg then
           Cat (lit ''com'') (Cat (Grp 1 (Chr CHR ''/'')) (Cat (lit ''whatsapp'')
             (Opt (Grp 2 (lit ''/w4b'')))))
         else Cat (lit ''com'') (Cat (Grp 1 (Chr CHR ''/'')) (lit ''whatsapp''))),
      package_pattern2 =
        (if custom_search_pattern cfg \<noteq> [] then
           escape_replace (Chr CHR ''.'') 1 (custom_search_pattern cfg)
         else if is_business cfg then
           Cat (lit ''com'') (Cat (Grp 1 (Chr CHR ''.'')) (Cat (lit ''whatsapp'')
             (Opt (Grp 2 (lit ''.w4b'')))))
         else Cat (lit ''com'') (Cat (Grp 1 (Chr CHR ''.'')) (lit ''whatsapp''))),
      official_package_pattern =
        Cat (Grp 1 (Chr CHR ''.'')) (Cat (lit (new_package_name cfg))
          (Cat (Grp 2 (Chr CHR ''.'')) (Grp 3 (alts OFFICIAL_MODULES)))),
      official_packageP_pattern =
        Cat (Grp 1 dot_or_slash) (Cat (lit (new_package_name_path cfg))
          (Cat (Grp 2 dot_or_slash) (Grp 3 (alts OFFICIAL_MODULES)))) \<rparr>"

text \<open>The patterns that \<open>process_file\<close> compiles itself in the Business branch.\<close>

definition explicit_w4b_pattern1 :: regex where
  "explicit_w4b_pattern1 =
     Cat (lit ''com'') (Cat (Grp 1 (Chr CHR ''/'')) (Cat (lit ''whatsapp'') (Grp 2 (lit ''/w4b''))))"

definition explicit_w4b_pattern2 :: regex where
  "explicit_w4b_pattern2 =
     Cat (lit ''com'') (Cat (Grp 1 (Chr CHR ''.'')) (Cat (lit ''whatsapp'') (Grp 2 (lit ''.w4b''))))"

definition core_wa_pattern1 :: regex where
  "core_wa_pattern1 =
     Cat (lit ''com'') (Cat (Grp 1 (Chr CHR ''/'')) (Cat (lit ''whatsapp'') (NLook (lit ''/w4b''))))"

definition core_wa_pattern2 :: regex where
  "core_wa_pattern2 =
     Cat (lit ''com'') (Cat (Grp 1 (Chr CHR ''.'')) (Cat (lit ''whatsapp'') (NLook (lit ''.w4b''))))"

text \<open>
  The two halves of the \<open>try\<close> block of \<open>SmaliProcessor.process_file\<close>, between reading
  and writing the file: the replacement of the package references, and the rules for the
  official modules, which run last. The templates are the source's strings: the f-string
  \<open>f'com\\1{...}'\<close> is \<open>com\<close>, a backslash, \<open>1\<close> and the configured name.
\<close>

definition smali_main :: "SmaliProcessor \<Rightarrow> string \<Rightarrow> py_exception + string" where
  "smali_main p content =
    (let cfg = smali_config p in
     if is_business cfg then
       then_sub (then_sub (then_sub (then_sub (Inr content)
         explicit_w4b_pattern1 (''com'' @ [bslash] @ ''1'' @ new_package_name_path cfg))
         explicit_w4b_pattern2 (''com'' @ [bslash] @ ''1'' @ new_package_name cfg))
         core_wa_pattern1 (''com'' @ [bslash] @ ''1whatsapp''))
         core_wa_pattern2 (''com'' @ [bslash] @ ''1whatsapp'')
     else
       then_sub (then_sub (Inr content)
         (package_pattern1 p) (''com'' @ [bslash] @ ''1'' @ new_package_name_path cfg))
         (package_pattern2 p) (''com'' @ [bslash] @ ''1'' @ new_package_name cfg))"

definition smali_official :: "SmaliProcessor \<Rightarrow> py_exception + string \<Rightarrow> py_exception + string" where
  "smali_official p x =
    (if is_business (smali_config p) then
       then_sub (then_sub x
         (official_package_pattern p)
           ([bslash] @ ''1whatsapp.w4b'' @ [bslash] @ ''2'' @ [bslash] @ ''3''))
         (official_packageP_pattern p)
           ([bslash] @ ''1whatsapp/w4b'' @ [bslash] @ ''2'' @ [bslash] @ ''3'')
     else
       then_sub (then_sub x
         (official_package_pattern p)
           ([bslash] @ ''1whatsapp'' @ [bslash] @ ''2'' @ [bslash] @ ''3''))
         (official_packageP_pattern p)
           ([bslash] @ ''1whatsapp'' @ [bslash] @ ''2'' @ [bslash] @ ''3''))"

definition smali_rewrite :: "SmaliProcessor \<Rightarrow> string \<Rightarrow> py_exception + string" where
  "smali_rewrite p content = smali_official p (smali_main p content)"

subsection \<open>XmlProcessor\<close>

record XmlProcessor =
  xml_config :: WhatsAppCloneConfig
  package_pattern :: regex
  sticker_pattern :: regex
  folder_pattern :: regex
  xml_official_package_pattern :: regex

definition XmlProcessor_init :: "WhatsAppCloneConfig \<Rightarrow> XmlProcessor" where
  "XmlProcessor_init cfg =
    \<lparr> xml_config = cfg,
      package_pattern =
        (if custom_search_pattern cfg \<noteq> [] then lit (custom_search_pattern cfg)
         else if is_business cfg then Cat (lit ''com.whatsapp'') (Opt (Grp 1 (lit ''.w4b'')))
         else lit ''com.whatsapp''),
      sticker_pattern =
        (if custom_search_pattern cfg \<noteq> [] then
           Cat (lit (''android:name='' @ [dquote])) (Cat (lit (custom_search_pattern cfg))
             (lit (''.sticker.READ'' @ [dquote])))
         else if is_business cfg then
           Cat (lit (''android:name='' @ [dquote] @ ''com.whatsapp''))
             (Cat (Opt (Grp 1 (lit ''.w4b''))) (lit (''.sticker.READ'' @ [dquote])))
         else lit (''android:name='' @ [dquote] @ ''com.whatsapp.sticker.READ'' @ [dquote])),
      folder_pattern = lit (current_folder_name cfg),
      xml_official_package_pattern =
        Cat (Grp 1 (Chr CHR ''.'')) (Cat (lit (new_package_name cfg))
          (Cat (Grp 2 (Chr CHR ''.'')) (Grp 3 (alts OFFICIAL_MODULES)))) \<rparr>"

text \<open>The substitutions of \<open>XmlProcessor.process_file\<close>, in the order of the source.\<close>

definition xml_package_sub :: "XmlProcessor \<Rightarrow> string \<Rightarrow> py_exception + string" where
  "xml_package_sub p content =
     re_sub (package_pattern p) (''com.'' @ new_package_name (xml_config p)) content"

definition xml_sticker_sub :: "XmlProcessor \<Rightarrow> py_exception + string \<Rightarrow> py_exception + string" where
  "xml_sticker_sub p x =
     then_sub x (sticker_pattern p)
       (''android:name='' @ [dquote] @ ''com.'' @ new_package_name (xml_config p)
          @ ''.sticker.READ'' @ [dquote])"

definition xml_tail :: "XmlProcessor \<Rightarrow> py_exception + string \<Rightarrow> py_exception + string" where
  "xml_tail p x =
     then_sub (then_sub x (folder_pattern p) (new_folder_name (xml_config p)))
       (xml_official_package_pattern p)
       (if is_business (xml_config p)
        then [bslash] @ ''1whatsapp.w4b'' @ [bslash] @ ''2'' @ [bslash] @ ''3''
        else [bslash] @ ''1whatsapp'' @ [bslash] @ ''2'' @ [bslash] @ ''3'')"

definition xml_rewrite :: "XmlProcessor \<Rightarrow> string \<Rightarrow> py_exception + string" where
  "xml_rewrite p content = xml_tail p (xml_sticker_sub p (xml_package_sub p content))"

text \<open>
  \<open>xml_rewrite_without_sticker\<close> is \<open>process_file\<close> with the sticker substitution taken
  out; it is not in the source and serves to state that the sticker rule changes nothing.
\<close>

definition xml_rewrite_without_sticker :: "XmlProcessor \<Rightarrow> string \<Rightarrow> py_exception + string" where
  "xml_rewrite_without_sticker p content = xml_tail p (xml_package_sub p content)"

section \<open>Files and the run\<close>

text \<open>
  The files below \<open>root_folder\<close> that \<open>glob\<close> can see. A file has the text that reading
  it gives (decoded, undecodable bytes ignored), and it says whether it can be opened for
  reading and for writing and how many characters the device takes for it before a write
  fails (\<open>None\<close>: as many as are written). The reports of failed files that have been
  printed are kept as a list of paths with the exception caught.
\<close>

record text_file =
  content :: string
  readable :: bool
  writable :: bool
  room :: "nat option"

type_synonym fs = "(string \<times> text_file) list"

type_synonym world = "fs \<times> (string \<times> py_exception) list"

text \<open>
  What the program does not decide: whether \<open>rich\<close> could be imported; for a path and an
  exception, the exception that \<open>console.print\<close> of \<open>rich\<close> raises, if any, when it is
  given \<open>f"[bold red]Error processing {file_path}: {e}[/bold red]"\<close>, where it reads the
  path and the text of the exception as markup too; and, when a call of \<open>process_file\<close>
  in the thread pool has raised, how many of the calls after it a worker had taken up
  before they were cancelled.
\<close>

record env =
  RICH_AVAILABLE :: bool
  report_raises :: "string \<Rightarrow> py_exception \<Rightarrow> py_exception option"
  started_after :: nat

definition read_file :: "fs \<Rightarrow> string \<Rightarrow> py_exception + string" where
  "read_file files path =
     (case map_of files path of
        None \<Rightarrow> Inl FileNotFoundError
      | Some f \<Rightarrow> if readable f then Inr (content f) else Inl PermissionError)"

definition store :: "fs \<Rightarrow> string \<Rightarrow> string \<Rightarrow> fs" where
  "store files path text = map (\<lambda>(q, h). if q = path then (q, h\<lparr>content := text\<rparr>) else (q, h)) files"

text \<open>
  \<open>with open(file_path, 'w', encoding='utf-8') as file: file.write(content)\<close>. Opening
  fails on a file that is not writable and leaves it alone. Otherwise opening empties the
  file, and a write that the device does not take whole raises after that: the file is
  left with the part that was taken. The result is the new file system and the exception
  raised, if any.
\<close>

definition write_file :: "fs \<Rightarrow> string \<Rightarrow> string \<Rightarrow> fs \<times> py_exception option" where
  "write_file files path text =
     (case map_of files path of
        None \<Rightarrow>
          (files @ [(path, \<lparr>content = text, readable = True, writable = True, room = None\<rparr>)], None)
      | Some f \<Rightarrow>
          if \<not> writable f then (files, Some PermissionError)
          else (case room f of
                  None \<Rightarrow> (store files path text, None)
                | Some n \<Rightarrow>
                    if length text \<le> n then (store files path text, None)
                    else (store files path (take n text), Some OSError)))"

text \<open>
  The \<open>except Exception as e\<close> block of either \<open>process_file\<close>: with \<open>rich\<close> the report
  goes through \<open>console.print\<close>, which is outside any \<open>try\<close>, so what it raises leaves
  \<open>process_file\<close>; without \<open>rich\<close> it goes to the logger, which raises nothing. After the
  report the result is \<open>False\<close>.
\<close>

definition except_block :: "env \<Rightarrow> string \<Rightarrow> py_exception \<Rightarrow> world \<Rightarrow> world \<times> (py_exception + bool)" where
  "except_block ev path e w =
     (if RICH_AVAILABLE ev then
        (case report_raises ev path e of
           Some x \<Rightarrow> (w, Inl x)
         | None \<Rightarrow> ((fst w, snd w @ [(path, e)]), Inr False))
      else ((fst w, snd w @ [(path, e)]), Inr False))"

text \<open>
  \<open>process_file\<close> of either processor: read, rewrite, write back, \<open>True\<close>; an exception on
  the way goes to the \<open>except\<close> block.
\<close>

definition process_file ::
    "env \<Rightarrow> (string \<Rightarrow> py_exception + string) \<Rightarrow> string \<Rightarrow> world \<Rightarrow> world \<times> (py_exception + bool)" where
  "process_file ev rewrite path w =
     (case read_file (fst w) path of
        Inl e \<Rightarrow> except_block ev path e w
      | Inr text \<Rightarrow>
          (case rewrite text of
             Inl e \<Rightarrow> except_block ev path e w
           | Inr text' \<Rightarrow>
               (case write_file (fst w) path text' of
                  (files', Some e) \<Rightarrow> except_block ev path e (files', snd w)
                | (files', None) \<Rightarrow> ((files', snd w), Inr True))))"

definition get_files :: "string \<Rightarrow> fs \<Rightarrow> string list" where
  "get_files ext files = filter (suffix ext) (map fst files)"

text \<open>
  \<open>executor.map(self.process_file, files)\<close>: one call for each file, the results in the
  order of the files. The calls touch different paths, so they are run here one after the
  other. When a call raises, the loop over the results raises at that file; the workers
  take up calls in the order of the list, so by then some more of the calls after it have
  been started, which run to their end with nobody reading their results, and the rest is
  cancelled.
\<close>

definition run_unread :: "(string \<Rightarrow> world \<Rightarrow> world \<times> (py_exception + bool)) \<Rightarrow> string list \<Rightarrow> world \<Rightarrow> world" where
  "run_unread pf paths w = fold (\<lambda>path w'. fst (pf path w')) paths w"

fun map_files :: "(string \<Rightarrow> world \<Rightarrow> world \<times> (py_exception + bool)) \<Rightarrow> nat \<Rightarrow> string list \<Rightarrow> world
    \<Rightarrow> world \<times> (py_exception + bool list)" where
  "map_files pf late [] w = (w, Inr [])"
| "map_files pf late (path # paths) w =
     (case pf path w of
        (w', Inl e) \<Rightarrow> (run_unread pf (take late paths) w', Inl e)
      | (w', Inr ok) \<Rightarrow>
          (case map_files pf late paths w' of
             (w'', Inl e) \<Rightarrow> (w'', Inl e)
           | (w'', Inr oks) \<Rightarrow> (w'', Inr (ok # oks))))"

text \<open>
  \<open>FileProcessor.process_all_files\<close>. \<open>ThreadPoolExecutor\<close> raises \<open>ValueError\<close> for a
  worker count that is not positive. Neither this exception nor one that comes out of
  \<open>executor.map\<close> is caught here: the counts are returned only when every call has
  returned.
\<close>

definition process_all_files ::
    "env \<Rightarrow> WhatsAppCloneConfig \<Rightarrow> string list \<Rightarrow> (string \<Rightarrow> world \<Rightarrow> world \<times> (py_exception + bool))
      \<Rightarrow> world \<Rightarrow> world \<times> (py_exception + nat \<times> nat)" where
  "process_all_files ev cfg files pf w =
     (if files = [] then (w, Inr (0, 0))
      else if max_workers cfg \<le> 0 then (w, Inl ValueError)
      else (case map_files pf (started_after ev) files w of
              (w', Inl e) \<Rightarrow> (w', Inl e)
            | (w', Inr results) \<Rightarrow>
                (w', Inr (length files, length (filter (\<lambda>result. result) results)))))"

definition smali_process_all_files ::
    "env \<Rightarrow> SmaliProcessor \<Rightarrow> world \<Rightarrow> world \<times> (py_exception + nat \<times> nat)" where
  "smali_process_all_files ev p w =
     process_all_files ev (smali_config p) (get_files ''.smali'' (fst w))
       (process_file ev (smali_rewrite p)) w"

definition xml_process_all_files ::
    "env \<Rightarrow> XmlProcessor \<Rightarrow> world \<Rightarrow> world \<times> (py_exception + nat \<times> nat)" where
  "xml_process_all_files ev p w =
     process_all_files ev (xml_config p) (get_files ''.xml'' (fst w))
       (process_file ev (xml_rewrite p)) w"

text \<open>
  \<open>WhatsAppCloner.run\<close>: \<open>validate_config\<close> first (\<open>root_is_dir\<close> stands for
  \<open>os.path.isdir(root_folder)\<close>), then the \<open>.smali\<close> files, then the \<open>.xml\<close> files. An
  exception that leaves \<open>run\<close> ends the program in \<open>main\<close>. The lines that \<open>run\<close> itself
  prints are not part of the result.
\<close>

datatype run_result = NotStarted | Aborted py_exception | Completed "nat \<times> nat" "nat \<times> nat"

definition validate_config :: "WhatsAppCloneConfig \<Rightarrow> bool \<Rightarrow> bool" where
  "validate_config cfg root_is_dir =
     (if \<not> root_is_dir then False
      else if new_package_name cfg = [] \<or> new_folder_name cfg = [] then False
      else True)"

definition run :: "env \<Rightarrow> WhatsAppCloneConfig \<Rightarrow> bool \<Rightarrow> world \<Rightarrow> world \<times> run_result" where
  "run ev cfg root_is_dir w =
     (if \<not> validate_config cfg root_is_dir then (w, NotStarted)
      else
        (case smali_process_all_files ev (SmaliProcessor_init cfg) w of
           (w1, Inl e) \<Rightarrow> (w1, Aborted e)
         | (w1, Inr smali_counts) \<Rightarrow>
             (case xml_process_all_files ev (XmlProcessor_init cfg) w1 of
                (w2, Inl e) \<Rightarrow> (w2, Aborted e)
              | (w2, Inr xml_counts) \<Rightarrow> (w2, Completed smali_counts xml_counts))))"

section \<open>Notions used in the statements\<close>

text \<open>
  The texts that a pattern can consume: every match of \<open>r\<close> is one of \<open>lang r\<close> (a
  lookahead consumes nothing, so for a pattern with a lookahead not every text of
  \<open>lang r\<close> is a match).
\<close>

fun lang :: "regex \<Rightarrow> string set" where
  "lang Eps = {[]}"
| "lang (Chr a) = {[a]}"
| "lang (Cat r1 r2) = {u @ v | u v. u \<in> lang r1 \<and> v \<in> lang r2}"
| "lang (Alt r1 r2) = lang r1 \<union> lang r2"
| "lang (Opt r) = insert [] (lang r)"
| "lang (Grp n r) = lang r"
| "lang (NLook r) = {[]}"

text \<open>
  \<open>with_delimiter d s\<close> is \<open>s\<close> with every dot replaced by \<open>d\<close>: the text that the
  pattern made from a custom search token matches. \<open>caps_after\<close> gives the groups of
  such a match: the dots of the token, numbered from \<open>n\<close>.
\<close>

definition with_delimiter :: "char \<Rightarrow> string \<Rightarrow> string" where
  "with_delimiter d s = map (\<lambda>a. if a = CHR ''.'' then d else a) s"


text \<open>
  A name that is safe in a template after \<open>\1\<close>: it has no backslash, and does not
  start with a digit (a digit would be read as part of the group number).
\<close>

definition template_safe :: "string \<Rightarrow> bool" where
  "template_safe s = (bslash \<notin> set s \<and> (s = [] \<or> \<not> is_digit (hd s)))"

text \<open>The token that the \<open>.xml\<close> package pattern looks for.\<close>

definition source_token :: "WhatsAppCloneConfig \<Rightarrow> string" where
  "source_token cfg =
     (if custom_search_pattern cfg \<noteq> [] then custom_search_pattern cfg else ''com.whatsapp'')"

text \<open>
  \<open>overlap_free tok repl\<close>: the replacement does not contain the token, no proper
  beginning of the token ends the replacement, and no proper end of the token begins the
  replacement or is begun by it. Then no occurrence of the token can arise where a
  replacement meets the text around it.
\<close>

definition overlap_free :: "string \<Rightarrow> string \<Rightarrow> bool" where
  "overlap_free tok repl =
     (\<not> sublist tok repl
      \<and> (\<forall>u \<in> set (prefixes tok). u \<noteq> [] \<and> u \<noteq> tok \<longrightarrow> \<not> suffix u repl)
      \<and> (\<forall>v \<in> set (suffixes tok). v \<noteq> [] \<and> v \<noteq> tok \<longrightarrow> \<not> prefix v repl \<and> \<not> prefix repl v))"


text \<open>\<open>lacks x y\<close>: the buffer \<open>y\<close>, if the rewrite got that far, does not contain \<open>x\<close>.\<close>

definition lacks :: "char \<Rightarrow> py_exception + string \<Rightarrow> bool" where
  "lacks x y = (case y of Inl e \<Rightarrow> True | Inr s \<Rightarrow> x \<notin> set s)"

text \<open>
  What \<open>process_file\<close> does to one file of a file system, on its own: the exception it
  catches, or the text it has written when it returns \<open>True\<close>. \<open>failures\<close> lists the
  failed files of a run with their exceptions.
\<close>

definition file_outcome :: "(string \<Rightarrow> py_exception + string) \<Rightarrow> fs \<Rightarrow> string \<Rightarrow> py_exception + string" where
  "file_outcome rewrite files path =
     (case read_file files path of
        Inl e \<Rightarrow> Inl e
      | Inr text \<Rightarrow>
          (case rewrite text of
             Inl e \<Rightarrow> Inl e
           | Inr text' \<Rightarrow>
               (case snd (write_file files path text') of Some e \<Rightarrow> Inl e | None \<Rightarrow> Inr text')))"

definition failures :: "(string \<Rightarrow> py_exception + string) \<Rightarrow> fs \<Rightarrow> string list \<Rightarrow> (string \<times> py_exception) list" where
  "failures rewrite files paths =
     concat (map (\<lambda>path. case file_outcome rewrite files path of Inl e \<Rightarrow> [(path, e)] | Inr text' \<Rightarrow> []) paths)"

text \<open>
  The job of the specification's end-to-end example (WhatsApp renamed to \<open>com.myapp\<close>),
  the same job for WhatsApp Business, and a job with an empty package name.
\<close>

definition example_job :: WhatsAppCloneConfig where
  "example_job =
     \<lparr> root_folder = ''decompiled'', current_folder_name = ''WhatsApp'',
       new_package_name = ''myapp'', new_folder_name = ''MyApp'',
       new_package_name_path = ''myapp'', custom_search_pattern = [], max_workers = 4 \<rparr>"

definition business_job :: WhatsAppCloneConfig where
  "business_job = example_job \<lparr> current_folder_name := ''WhatsApp Business'' \<rparr>"

definition empty_package_job :: WhatsAppCloneConfig where
  "empty_package_job = example_job \<lparr> new_package_name := [], new_package_name_path := [] \<rparr>"

text \<open>
  Ten \<open>.smali\<close> files, the fifth of which cannot be opened; a Business job whose package
  name starts like the module \<open>util\<close>; a job whose package name is the beginning of
  \<open>whatsapp\<close>.
\<close>

definition ten_files :: fs where
  "ten_files =
     map (\<lambda>n. (''file'' @ n @ ''.smali'',
              \<lparr>content = ''Lcom/whatsapp/Foo;'', readable = (n \<noteq> ''05''), writable = True,
                room = None\<rparr>))
       [''01'', ''02'', ''03'', ''04'', ''05'', ''06'', ''07'', ''08'', ''09'', ''10'']"

definition utility_job :: WhatsAppCloneConfig where
  "utility_job = business_job \<lparr> new_package_name := ''utility'', new_package_name_path := ''utility'' \<rparr>"

definition whats_job :: WhatsAppCloneConfig where
  "whats_job = example_job \<lparr> new_package_name := ''whats'', new_package_name_path := ''whats'' \<rparr>"








text \<open>
  The shape of the two patterns for the official modules, \<open>d\<close> being the pattern of a
  delimiter and \<open>w\<close> the new package name, and the parsed form of their replacement
  template when the application is not WhatsApp Business.
\<close>

abbreviation official_rule :: "regex \<Rightarrow> string \<Rightarrow> regex" where
  "official_rule d w \<equiv> Cat (Grp 1 d) (Cat (lit w) (Cat (Grp 2 d) (Grp 3 (alts OFFICIAL_MODULES))))"

abbreviation official_items :: "titem list" where
  "official_items \<equiv> TGrp 1 # map TChr ''whatsapp'' @ [TGrp 2, TGrp 3]"

text \<open>
  Two environments. In \<open>plain_env\<close> the import of \<open>rich\<close> has failed, so the reports go
  to the logger. In \<open>rich_env\<close> it has succeeded: \<open>rich\<close> refuses markup with a closing
  tag when no tag of that name is open, and the report opens the tag \<open>bold red\<close> only, so
  a report for a path with the text \<open>[/bold]\<close> in it raises \<open>MarkupError\<close>; this is all
  that \<open>rich_env\<close> says of \<open>rich\<close>. Then three \<open>.smali\<close> files, the second of which has
  such a name and cannot be opened, and a file on a device that is full.
\<close>

definition plain_env :: env where
  "plain_env = \<lparr> RICH_AVAILABLE = False, report_raises = (\<lambda>path e. None), started_after = 0 \<rparr>"

definition rich_env :: env where
  "rich_env =
     \<lparr> RICH_AVAILABLE = True,
       report_raises = (\<lambda>path e. if sublist ''[/bold]'' path then Some MarkupError else None),
       started_after = 0 \<rparr>"

definition tagged_files :: fs where
  "tagged_files =
     [(''decompiled/a.smali'',
         \<lparr>content = ''Lcom/whatsapp/Foo;'', readable = True, writable = True, room = None\<rparr>),
      (''decompiled/sub[/bold].smali'',
         \<lparr>content = ''Lcom/whatsapp/Foo;'', readable = False, writable = True, room = None\<rparr>),
      (''decompiled/c.smali'',
         \<lparr>content = ''Lcom/whatsapp/Foo;'', readable = True, writable = True, room = None\<rparr>)]"

definition full_device_files :: fs where
  "full_device_files =
     [(''decompiled/a.smali'',
         \<lparr>content = ''Lcom/whatsapp/Foo;'', readable = True, writable = True, room = Some 0\<rparr>)]"

text \<open>
  \<open>quiet ev paths\<close>: in the environment \<open>ev\<close> the report for each of the paths can be
  printed, whatever the exception reported.
\<close>

definition quiet :: "env \<Rightarrow> string list \<Rightarrow> bool" where
  "quiet ev paths = (RICH_AVAILABLE ev \<longrightarrow> (\<forall>p \<in> set paths. \<forall>e. report_raises ev p e = None))"

section \<open>Matching and substitution: general facts\<close>

subsection \<open>What a match consumes\<close>

lemma with_delimiter_simps [simp]:
  "with_delimiter d [] = []"
  "with_delimiter d (a # as) = (if a = CHR ''.'' then d else a) # with_delimiter d as"
  "length (with_delimiter d s) = length s"
  by (simp_all add: with_delimiter_def)

lemma with_delimiter_dot [simp]: "with_delimiter (CHR ''.'') s = s"
  by (induction s) auto


lemma rmatch_lit:
  "rmatch (lit w) s c k = (if prefix w s then k (drop (length w) s) c else None)"
proof (induction w arbitrary: s)
  case Nil
  then show ?case by simp
next
  case (Cons a w)
  show ?case by (cases s) (auto simp: Cons.IH)
qed

lemma rmatch_text:
  assumes "rmatch r s c k = Some m"
  shows "\<exists>u s' c'. k s' c' = Some m \<and> s = u @ s' \<and> u \<in> lang r
           \<and> (\<forall>n g. c' n = Some g \<longrightarrow> c n = Some g \<or> sublist g u)"
  using assms
proof (induction r arbitrary: s c k)
  case Eps
  then show ?case by auto
next
  case (Chr a)
  then obtain xs where "s = [a] @ xs" "k xs c = Some m"
    by (cases s) (auto split: if_splits)
  then have "k xs c = Some m \<and> s = [a] @ xs \<and> [a] \<in> lang (Chr a)
      \<and> (\<forall>n g. c n = Some g \<longrightarrow> c n = Some g \<or> sublist g [a])" by simp
  then show ?case by blast
next
  case (Cat r1 r2)
  from Cat.IH(1)[OF Cat.prems[simplified]]
  obtain u1 s1 c1 where a: "rmatch r2 s1 c1 k = Some m" "s = u1 @ s1" "u1 \<in> lang r1"
      "\<forall>n g. c1 n = Some g \<longrightarrow> c n = Some g \<or> sublist g u1"
    by blast
  from Cat.IH(2)[OF a(1)] obtain u2 s2 c2 where b: "k s2 c2 = Some m" "s1 = u2 @ s2" "u2 \<in> lang r2"
      "\<forall>n g. c2 n = Some g \<longrightarrow> c1 n = Some g \<or> sublist g u2"
    by blast
  have "\<forall>n g. c2 n = Some g \<longrightarrow> c n = Some g \<or> sublist g (u1 @ u2)"
  proof (intro allI impI)
    fix n g assume "c2 n = Some g"
    with b(4) have "c1 n = Some g \<or> sublist g u2" by blast
    then show "c n = Some g \<or> sublist g (u1 @ u2)"
    proof
      assume "c1 n = Some g"
      with a(4) have "c n = Some g \<or> sublist g u1" by blast
      then show ?thesis by (auto intro: sublist_order.order_trans[where y=u1])
    next
      assume "sublist g u2"
      then show ?thesis by (auto intro: sublist_order.order_trans[where y=u2])
    qed
  qed
  with a b have "k s2 c2 = Some m \<and> s = (u1 @ u2) @ s2 \<and> u1 @ u2 \<in> lang (Cat r1 r2)
      \<and> (\<forall>n g. c2 n = Some g \<longrightarrow> c n = Some g \<or> sublist g (u1 @ u2))" by auto
  then show ?case by blast
next
  case (Alt r1 r2)
  show ?case
  proof (cases "rmatch r1 s c k")
    case None
    with Alt.prems have "rmatch r2 s c k = Some m" by simp
    from Alt.IH(2)[OF this] show ?thesis by auto
  next
    case (Some m')
    with Alt.prems have "rmatch r1 s c k = Some m" by simp
    from Alt.IH(1)[OF this] show ?thesis by auto
  qed
next
  case (Opt r)
  show ?case
  proof (cases "rmatch r s c k")
    case None
    with Opt.prems have "k s c = Some m" by simp
    then have "k s c = Some m \<and> s = [] @ s \<and> [] \<in> lang (Opt r)
      \<and> (\<forall>n g. c n = Some g \<longrightarrow> c n = Some g \<or> sublist g [])" by simp
    then show ?thesis by blast
  next
    case (Some m')
    with Opt.prems have "rmatch r s c k = Some m" by simp
    from Opt.IH[OF this] show ?thesis by auto
  qed
next
  case (Grp n r)
  from Grp.IH[OF Grp.prems[simplified]]
  obtain u s' c' where a: "k s' (c'(n \<mapsto> take (length s - length s') s)) = Some m" "s = u @ s'"
      "u \<in> lang r" "\<forall>n g. c' n = Some g \<longrightarrow> c n = Some g \<or> sublist g u"
    by blast
  from a(2) have t: "take (length s - length s') s = u" by simp
  from a t have "k s' (c'(n \<mapsto> u)) = Some m \<and> s = u @ s' \<and> u \<in> lang (Grp n r)
      \<and> (\<forall>n' g. (c'(n \<mapsto> u)) n' = Some g \<longrightarrow> c n' = Some g \<or> sublist g u)" by auto
  then show ?case by blast
next
  case (NLook r)
  then have "k s c = Some m" by (auto split: option.splits)
  then have "k s c = Some m \<and> s = [] @ s \<and> [] \<in> lang (NLook r)
      \<and> (\<forall>n g. c n = Some g \<longrightarrow> c n = Some g \<or> sublist g [])" by simp
  then show ?case by blast
qed

lemma match_here_text:
  assumes "match_here r adv s = Some (k, c)"
  shows "k \<le> length s \<and> take k s \<in> lang r \<and> (\<forall>n g. c n = Some g \<longrightarrow> sublist g (take k s))
     \<and> (adv \<longrightarrow> 0 < k)"
proof -
  from rmatch_text[OF assms[unfolded match_here_def]]
  obtain u s' c' where a: "(if adv \<and> length s' = length s then None else Some (length s - length s', c')) = Some (k, c)"
     "s = u @ s'" "u \<in> lang r" "\<forall>n g. c' n = Some g \<longrightarrow> Map.empty n = Some g \<or> sublist g u"
    by blast
  from a(1) have k: "k = length s - length s'" and c: "c = c'" and adv: "\<not> (adv \<and> length s' = length s)"
    by (auto split: if_splits)
  from k a(2) have ku: "k = length u" by simp
  with a(2) have tk: "take k s = u" by simp
  from a(2) adv ku have "adv \<longrightarrow> 0 < k" by auto
  with ku tk a c show ?thesis by auto
qed

lemma lang_lit [simp]: "lang (lit w) = {w}"
  by (induction w) auto

lemma lang_alts: "ws \<noteq> [] \<Longrightarrow> lang (alts ws) = set ws"
  by (induction ws rule: alts.induct) auto

lemma lang_escape_replace:
  "lang (escape_replace (Chr d) n w) = {map (\<lambda>a. if a = CHR ''.'' then d else a) w}"
  by (induction w arbitrary: n) auto


lemma groups_lit [simp]: "groups (lit w) = 0"
  by (induction w) auto

lemma groups_alts [simp]: "groups (alts ws) = 0"
  by (induction ws rule: alts.induct) auto

lemma groups_escape_replace:
  "groups (escape_replace (Chr d) n w) = length (filter (\<lambda>a. a = CHR ''.'') w)"
  by (induction w arbitrary: n) auto

lemma match_here_lit:
  "w \<noteq> [] \<Longrightarrow> prefix w s \<Longrightarrow> match_here (lit w) adv s = Some (length w, Map.empty)"
  by (auto simp: match_here_def rmatch_lit prefix_def)






subsection \<open>Templates\<close>

lemma expand_map_TChr [simp]: "expand (map TChr w @ t) m c = w @ expand t m c"
  by (induction w) auto

lemma expand_map_TChr' [simp]: "expand (map TChr w) m c = w"
  using expand_map_TChr[of w "[]" m c] by simp

lemma expand_chars:
  "x \<in> set (expand t m c) \<Longrightarrow> TChr x \<in> set t \<or> x \<in> set m \<or> (\<exists>n g. c n = Some g \<and> x \<in> set g)"
  by (induction t m c rule: expand.induct) (auto split: if_splits option.splits)

lemma parse_template_plain:
  "bslash \<notin> set s \<Longrightarrow> parse_template g s = Inr (map TChr s)"
  by (induction g s rule: parse_template.induct) auto

lemma parse_template_plain_append:
  "bslash \<notin> set pre \<Longrightarrow> parse_template g rest = Inr t
    \<Longrightarrow> parse_template g (pre @ rest) = Inr (map TChr pre @ t)"
proof (induction pre)
  case Nil
  then show ?case by simp
next
  case (Cons a pre)
  then have ih: "parse_template g (pre @ rest) = Inr (map TChr pre @ t)" by simp
  show ?case
  proof (cases "pre @ rest")
    case Nil
    with ih Cons.prems show ?thesis by auto
  next
    case (Cons b bs)
    with ih Cons.prems show ?thesis by auto
  qed
qed

lemma template_escape_group1:
  "1 \<le> g \<Longrightarrow> s = [] \<or> \<not> is_digit (hd s) \<Longrightarrow> template_escape g (CHR ''1'') s = Inr ([TGrp 1], 0)"
  by (cases s) (auto simp: template_escape_def is_digit_def addgroup_def digit_val_def)

lemma parse_template_group1:
  assumes "1 \<le> g" "bslash \<notin> set pre" "bslash \<notin> set s" "s = [] \<or> \<not> is_digit (hd s)"
  shows "parse_template g (pre @ [bslash] @ ''1'' @ s) = Inr (map TChr pre @ TGrp 1 # map TChr s)"
proof -
  have "parse_template g ([bslash] @ ''1'' @ s) = Inr (TGrp 1 # map TChr s)"
    using assms by (simp add: template_escape_group1 parse_template_plain)
  from parse_template_plain_append[OF assms(2) this] show ?thesis by simp
qed

lemma parse_template_com1:
  assumes "template_safe w" "bslash \<notin> set pre"
  shows "parse_template g (pre @ [bslash] @ ''1'' @ w) =
           (if 1 \<le> g then Inr (map TChr pre @ TGrp 1 # map TChr w) else Inl ReError)"
proof (cases "1 \<le> g")
  case True
  with parse_template_group1[of g pre w] assms show ?thesis by (simp add: template_safe_def)
next
  case False
  then have g: "g = 0" by simp
  have "template_escape 0 (CHR ''1'') w = Inl ReError"
    using assms(1) by (cases w) (auto simp: template_escape_def template_safe_def is_digit_def addgroup_def digit_val_def)
  then have "parse_template 0 ([bslash] @ ''1'' @ w) = Inl ReError" by simp
  have "parse_template 0 (pre @ [bslash] @ ''1'' @ w) = Inl ReError"
    using assms(2)
  proof (induction pre)
    case Nil
    then show ?case using \<open>parse_template 0 ([bslash] @ ''1'' @ w) = Inl ReError\<close> by simp
  next
    case (Cons a pre)
    then show ?case by (cases "pre @ [bslash] @ ''1'' @ w") auto
  qed
  with g show ?thesis by simp
qed


lemma template_safe_path: "template_safe w \<Longrightarrow> template_safe (dots_to_slashes w)"
  by (cases w) (auto simp: template_safe_def dots_to_slashes_def is_digit_def)

lemma dots_to_slashes_no_dot: "CHR ''.'' \<notin> set (dots_to_slashes w)"
  by (auto simp: dots_to_slashes_def)

lemma com1_template_free:
  assumes "template_safe w" "x \<notin> set w" "x \<notin> set ''com''" "parse_template g (''com'' @ [bslash] @ ''1'' @ w) = Inr t"
  shows "TChr x \<notin> set t"
proof -
  from parse_template_com1[OF assms(1), of "''com''" g] assms(4)
  have "t = map TChr ''com'' @ TGrp 1 # map TChr w" by (auto split: if_splits)
  with assms(2,3) show ?thesis by auto
qed

subsection \<open>The scan\<close>

lemma sub_scan_no_match:
  assumes "\<And>i adv'. match_here r adv' (drop i s) = None"
  shows "sub_scan r t adv s = s"
  using assms
proof (induction s arbitrary: adv)
  case Nil
  from Nil[of adv 0] show ?case by simp
next
  case (Cons x xs)
  have a: "match_here r adv (x # xs) = None" using Cons.prems[of adv 0] by simp
  have "sub_scan r t False xs = xs"
  proof (rule Cons.IH)
    fix i adv'
    show "match_here r adv' (drop i xs) = None" using Cons.prems[of adv' "Suc i"] by simp
  qed
  with a show ?case by simp
qed

lemma sub_scan_no_text:
  assumes "\<And>u. u \<in> lang r \<Longrightarrow> \<not> sublist u s"
  shows "sub_scan r t adv s = s"
proof (rule sub_scan_no_match)
  fix i adv'
  show "match_here r adv' (drop i s) = None"
  proof (rule ccontr)
    assume "match_here r adv' (drop i s) \<noteq> None"
    then obtain k c where "match_here r adv' (drop i s) = Some (k, c)" by auto
    from match_here_text[OF this] have "take k (drop i s) \<in> lang r" by simp
    moreover have "sublist (take k (drop i s)) s"
      by (metis append_take_drop_id sublist_appendI)
    ultimately show False using assms by blast
  qed
qed

lemma sub_scan_needs:
  assumes "\<And>u. u \<in> lang r \<Longrightarrow> x \<in> set u" "x \<notin> set s"
  shows "sub_scan r t adv s = s"
proof (rule sub_scan_no_text)
  fix u assume "u \<in> lang r"
  with assms(1) have "x \<in> set u" by blast
  with assms(2) show "\<not> sublist u s" by (meson set_mono_sublist subsetD)
qed




lemma sub_scan_hit:
  assumes "match_here r False s = Some (k, c)" "0 < k"
  shows "sub_scan r t False s = expand t (take k s) c @ sub_scan r t False (drop k s)"
proof (cases s)
  case Nil
  with match_here_text[OF assms(1)] assms(2) show ?thesis by simp
next
  case (Cons x xs)
  with assms show ?thesis by simp
qed



lemma sub_scan_keeps_free:
  assumes "x \<notin> set s" "TChr x \<notin> set t"
  shows "x \<notin> set (sub_scan r t adv s)"
  using assms
proof (induction r t adv s rule: sub_scan.induct)
  case (1 r t adv)
  show ?case
  proof (cases "match_here r adv []")
    case None
    then show ?thesis by simp
  next
    case (Some m)
    obtain k c where m: "m = (k, c)" by (cases m)
    from match_here_text[OF Some[unfolded m]] have "\<forall>n g. c n = Some g \<longrightarrow> g = []" by auto
    with expand_chars[of x t "[]" c] "1.prems" Some m show ?thesis by fastforce
  qed
next
  case (2 r t adv x' xs)
  show ?case
  proof (cases "match_here r adv (x' # xs)")
    case None
    with "2.IH"(1)[OF None] "2.prems" show ?thesis by simp
  next
    case (Some m)
    obtain k c where m: "m = (k, c)" by (cases m)
    from match_here_text[OF Some[unfolded m]]
    have caps: "\<forall>n g. c n = Some g \<longrightarrow> sublist g (take k (x' # xs))" by simp
    have tk: "set (take k (x' # xs)) \<subseteq> set (x' # xs)" by (rule set_take_subset)
    have e: "x \<notin> set (expand t (take k (x' # xs)) c)"
    proof
      assume "x \<in> set (expand t (take k (x' # xs)) c)"
      from expand_chars[OF this] "2.prems"(2)
      consider "x \<in> set (take k (x' # xs))" | n g where "c n = Some g" "x \<in> set g" by blast
      then show False
      proof cases
        case 1
        with tk "2.prems"(1) show False by blast
      next
        case 2
        with caps have "sublist g (take k (x' # xs))" by blast
        then have "set g \<subseteq> set (take k (x' # xs))" by (rule set_mono_sublist)
        with 2 tk "2.prems"(1) show False by blast
      qed
    qed
    show ?thesis
    proof (cases "k = 0")
      case True
      from "2.IH"(2)[OF Some m[symmetric] True "2.prems"] Some m True e show ?thesis by simp
    next
      case False
      have "x \<notin> set (drop k (x' # xs))" using "2.prems"(1) by (meson in_set_dropD)
      from "2.IH"(3)[OF Some m[symmetric] False this "2.prems"(2)] Some m False e
      show ?thesis by simp
    qed
  qed
qed

lemma lacks_then_sub_template:
  assumes "lacks x y" "\<And>t. parse_template (groups r) repl = Inr t \<Longrightarrow> TChr x \<notin> set t"
  shows "lacks x (then_sub y r repl)"
  using assms
  by (auto simp: lacks_def then_sub_def re_sub_def sub_scan_keeps_free split: sum.splits)

lemma lacks_then_sub_needs:
  assumes "lacks x y" "\<And>u. u \<in> lang r \<Longrightarrow> x \<in> set u"
  shows "lacks x (then_sub y r repl)"
  using assms sub_scan_needs[of r x]
  by (auto simp: lacks_def then_sub_def re_sub_def split: sum.splits)

subsection \<open>When the replaced token cannot come back\<close>

lemma sub_scan_suffix_prefix:
  assumes lang: "\<And>u. u \<in> lang r \<Longrightarrow> prefix tok u" and ne: "tok \<noteq> []"
    and ex: "\<And>m c. expand t m c = repl"
    and ov: "overlap_free tok repl"
  shows "tok = w @ v \<Longrightarrow> w \<noteq> [] \<Longrightarrow> prefix v (sub_scan r t adv s) \<Longrightarrow> prefix v s"
  using lang ex
proof (induction r t adv s arbitrary: v w rule: sub_scan.induct)
  case (1 r t adv)
  show ?case
  proof (cases "match_here r adv []")
    case None
    with "1.prems" show ?thesis by simp
  next
    case (Some m)
    obtain k c where m: "m = (k, c)" by (cases m)
    from match_here_text[OF Some[unfolded m]] have "[] \<in> lang r" by simp
    with "1.prems"(4) ne show ?thesis by fastforce
  qed
next
  case (2 r t adv x xs)
  show ?case
  proof (cases "match_here r adv (x # xs)")
    case None
    show ?thesis
    proof (cases v)
      case Nil
      then show ?thesis by simp
    next
      case (Cons y v')
      with "2.prems"(3) None have y: "y = x" and p: "prefix v' (sub_scan r t False xs)" by auto
      from "2.prems"(1) Cons y have "tok = (w @ [x]) @ v'" by simp
      from "2.IH"(1)[OF None this _ p "2.prems"(4,5)] have "prefix v' xs" by simp
      with Cons y show ?thesis by simp
    qed
  next
    case (Some m)
    obtain k c where m: "m = (k, c)" by (cases m)
    show ?thesis
    proof (cases v)
      case Nil
      then show ?thesis by simp
    next
      case (Cons y v')
      from "2.prems"(3) Some m "2.prems"(5)
      obtain rest where "prefix v (repl @ rest)" by (auto split: if_splits)
      then have "prefix v repl \<or> prefix repl v" by (auto simp: prefix_append)
      moreover have "suffix v tok" "v \<noteq> []" "v \<noteq> tok"
        using "2.prems"(1,2) Cons by (auto simp: suffix_def)
      ultimately show ?thesis using ov by (auto simp: overlap_free_def)
    qed
  qed
qed

lemma sub_scan_token_gone:
  assumes lang: "\<And>u. u \<in> lang r \<Longrightarrow> prefix tok u" and ne: "tok \<noteq> []"
    and hit: "\<And>s adv. prefix tok s \<Longrightarrow> match_here r adv s \<noteq> None"
    and ex: "\<And>m c. expand t m c = repl"
    and ov: "overlap_free tok repl"
  shows "\<not> sublist tok (sub_scan r t adv s)"
  using lang hit ex
proof (induction r t adv s rule: sub_scan.induct)
  case (1 r t adv)
  show ?case
  proof (cases "match_here r adv []")
    case None
    with ne show ?thesis by simp
  next
    case (Some m)
    obtain k c where m: "m = (k, c)" by (cases m)
    from match_here_text[OF Some[unfolded m]] have "[] \<in> lang r" by simp
    with "1.prems"(1) ne show ?thesis by fastforce
  qed
next
  case (2 r t adv x xs)
  show ?case
  proof (cases "match_here r adv (x # xs)")
    case None
    have ih: "\<not> sublist tok (sub_scan r t False xs)"
      by (rule "2.IH"(1)[OF None "2.prems"])
    have "\<not> prefix tok (x # sub_scan r t False xs)"
    proof
      assume a: "prefix tok (x # sub_scan r t False xs)"
      with ne obtain v where v: "tok = [x] @ v" "prefix v (sub_scan r t False xs)"
        by (cases tok) auto
      from sub_scan_suffix_prefix[OF "2.prems"(1) ne "2.prems"(3) ov v(1) _ v(2)]
      have "prefix v xs" by simp
      with v(1) have "prefix tok (x # xs)" by simp
      from "2.prems"(2)[OF this, of adv] None show False by simp
    qed
    with ih None show ?thesis by (simp add: sublist_Cons_right)
  next
    case (Some m)
    obtain k c where m: "m = (k, c)" by (cases m)
    from match_here_text[OF Some[unfolded m]] have "take k (x # xs) \<in> lang r" by simp
    with "2.prems"(1) have "prefix tok (take k (x # xs))" by blast
    with ne have k: "k \<noteq> 0" by (cases "k = 0") auto
    have ih: "\<not> sublist tok (sub_scan r t False (drop k (x # xs)))"
      by (rule "2.IH"(3)[OF Some m[symmetric] k "2.prems"])
    have out: "sub_scan r t adv (x # xs) = repl @ sub_scan r t False (drop k (x # xs))"
      using Some m k "2.prems"(3) by simp
    have "\<not> sublist tok (repl @ sub_scan r t False (drop k (x # xs)))"
    proof
      assume "sublist tok (repl @ sub_scan r t False (drop k (x # xs)))"
      then consider "sublist tok repl" | "sublist tok (sub_scan r t False (drop k (x # xs)))"
        | u v where "tok = u @ v" "suffix u repl" "prefix v (sub_scan r t False (drop k (x # xs)))"
        by (auto simp: sublist_append)
      then show False
      proof cases
        case 1
        with ov show False by (simp add: overlap_free_def)
      next
        case 2
        with ih show False by simp
      next
        case 3
        show False
        proof (cases "u = [] \<or> v = []")
          case True
          then show False
          proof
            assume "u = []"
            with 3 have "prefix tok (sub_scan r t False (drop k (x # xs)))" by simp
            with ih show False by auto
          next
            assume "v = []"
            with 3 have "suffix tok repl" by simp
            with ov show False by (auto simp: overlap_free_def)
          qed
        next
          case False
          with 3 have "prefix u tok" "u \<noteq> []" "u \<noteq> tok" by auto
          with 3(2) ov show False by (auto simp: overlap_free_def)
        qed
      qed
    qed
    with out show ?thesis by simp
  qed
qed

section \<open>Facts about the two processors\<close>









lemma package_pattern_lang:
  "u \<in> lang (package_pattern (XmlProcessor_init cfg)) \<Longrightarrow> prefix (source_token cfg) u"
  by (auto simp: XmlProcessor_init_def source_token_def split: if_splits)

lemma package_pattern_hit:
  assumes "prefix (source_token cfg) s"
  shows "match_here (package_pattern (XmlProcessor_init cfg)) adv s \<noteq> None"
proof -
  have ne: "source_token cfg \<noteq> []" by (simp add: source_token_def)
  show ?thesis
  proof (cases "custom_search_pattern cfg = [] \<and> is_business cfg")
    case False
    then have "package_pattern (XmlProcessor_init cfg) = lit (source_token cfg)"
      by (auto simp: XmlProcessor_init_def source_token_def)
    with match_here_lit[OF ne assms] show ?thesis by simp
  next
    case True
    with assms obtain s' where s: "s = ''com.whatsapp'' @ s'"
      by (auto simp: source_token_def prefix_def)
    from True have p: "package_pattern (XmlProcessor_init cfg)
        = Cat (lit ''com.whatsapp'') (Opt (Grp 1 (lit ''.w4b'')))"
      by (simp add: XmlProcessor_init_def)
    show ?thesis
      unfolding p s match_here_def
      by (simp add: rmatch_lit split: option.splits)
  qed
qed

lemma sticker_pattern_lang:
  "u \<in> lang (sticker_pattern (XmlProcessor_init cfg)) \<Longrightarrow> sublist (source_token cfg) u"
proof -
  have a: "''android:name='' @ [dquote] @ ''com.whatsapp.sticker.READ'' @ [dquote]
      = (''android:name='' @ [dquote]) @ ''com.whatsapp'' @ (''.sticker.READ'' @ [dquote])"
    by simp
  have b: "sublist ''com.whatsapp'' (''android:name='' @ [dquote] @ ''com.whatsapp.sticker.READ'' @ [dquote])"
    unfolding a by (rule sublist_appendI)
  have c: "sublist ''com.whatsapp'' ((''android:name='' @ [dquote] @ ''com.whatsapp'') @ v)" for v
  proof -
    have "(''android:name='' @ [dquote] @ ''com.whatsapp'') @ v = (''android:name='' @ [dquote]) @ ''com.whatsapp'' @ v"
      by simp
    then show ?thesis by (metis sublist_appendI)
  qed
  assume "u \<in> lang (sticker_pattern (XmlProcessor_init cfg))"
  then show ?thesis
    using b c
    by (auto simp: XmlProcessor_init_def source_token_def simp del: append.simps append_assoc split: if_splits)
qed

subsection \<open>Files\<close>

lemma file_outcome_cong:
  "map_of files1 q = map_of files2 q \<Longrightarrow> file_outcome rw files1 q = file_outcome rw files2 q"
  by (simp add: file_outcome_def read_file_def write_file_def split: sum.splits option.splits)

lemma map_of_store:
  "map_of (store files p t) q
     = (if q = p then map_option (\<lambda>h. h\<lparr>content := t\<rparr>) (map_of files q) else map_of files q)"
  unfolding store_def by (induction files) auto

lemma write_file_other:
  "q \<noteq> p \<Longrightarrow> map_of (fst (write_file files p t)) q = map_of files q"
  by (auto simp: write_file_def map_of_store map_add_def split: option.splits if_splits)

lemma write_file_same:
  "snd (write_file files p t) = None \<Longrightarrow> map_option content (map_of (fst (write_file files p t)) p) = Some t"
  by (auto simp: write_file_def map_of_store map_add_def split: option.splits if_splits)

lemma except_block_quiet:
  "RICH_AVAILABLE ev \<longrightarrow> (\<forall>e. report_raises ev p e = None) \<Longrightarrow>
   except_block ev p e w = ((fst w, snd w @ [(p, e)]), Inr False)"
  by (auto simp: except_block_def)

lemma process_file_outcome:
  assumes "RICH_AVAILABLE ev \<longrightarrow> (\<forall>e. report_raises ev p e = None)"
  shows "\<exists>files'. process_file ev rw p (files, log) =
      ((files', log @ (case file_outcome rw files p of Inl e \<Rightarrow> [(p, e)] | Inr t \<Rightarrow> [])),
       Inr (\<not> isl (file_outcome rw files p)))
    \<and> (\<forall>q. q \<noteq> p \<longrightarrow> map_of files' q = map_of files q)
    \<and> (\<forall>t. file_outcome rw files p = Inr t \<longrightarrow> map_option content (map_of files' p) = Some t)"
proof (cases "read_file files p")
  case (Inl e)
  then show ?thesis
    by (simp add: process_file_def file_outcome_def except_block_quiet[OF assms])
next
  case (Inr body)
  show ?thesis
  proof (cases "rw body")
    case (Inl e)
    with Inr show ?thesis
      by (simp add: process_file_def file_outcome_def except_block_quiet[OF assms])
  next
    case rw: (Inr body')
    obtain files' x where w: "write_file files p body' = (files', x)" by (cases "write_file files p body'")
    from write_file_other[of _ p files body'] w
    have other: "\<forall>q. q \<noteq> p \<longrightarrow> map_of files' q = map_of files q" by simp
    show ?thesis
    proof (cases x)
      case None
      from write_file_same[of files p body'] w None
      have "map_option content (map_of files' p) = Some body'" by simp
      with Inr rw w None other show ?thesis
        by (simp add: process_file_def file_outcome_def)
    next
      case (Some e)
      with Inr rw w other show ?thesis
        by (simp add: process_file_def file_outcome_def except_block_quiet[OF assms])
    qed
  qed
qed

lemma map_files_outcomes:
  "distinct paths \<Longrightarrow> quiet ev paths \<Longrightarrow>
   \<exists>files'. map_files (process_file ev rw) late paths (files, log)
       = ((files', log @ failures rw files paths), Inr (map (\<lambda>p. \<not> isl (file_outcome rw files p)) paths))
     \<and> (\<forall>q. q \<notin> set paths \<longrightarrow> map_of files' q = map_of files q)
     \<and> (\<forall>p \<in> set paths. \<forall>t. file_outcome rw files p = Inr t
            \<longrightarrow> map_option content (map_of files' p) = Some t)"
proof (induction paths arbitrary: files log)
  case Nil
  then show ?case by (simp add: failures_def)
next
  case (Cons p paths)
  from Cons.prems(2) have qp: "RICH_AVAILABLE ev \<longrightarrow> (\<forall>e. report_raises ev p e = None)"
    and qs: "quiet ev paths" by (auto simp: quiet_def)
  let ?log1 = "log @ (case file_outcome rw files p of Inl e \<Rightarrow> [(p, e)] | Inr t \<Rightarrow> [])"
  from process_file_outcome[OF qp, of rw files log] obtain files1 where
    step: "process_file ev rw p (files, log) = ((files1, ?log1), Inr (\<not> isl (file_outcome rw files p)))"
    and other: "\<And>q. q \<noteq> p \<Longrightarrow> map_of files1 q = map_of files q"
    and same: "\<And>t. file_outcome rw files p = Inr t \<Longrightarrow> map_option content (map_of files1 p) = Some t"
    by blast
  from Cons.prems have d: "distinct paths" "p \<notin> set paths" by auto
  from Cons.IH[OF d(1) qs, of files1 ?log1] obtain files2 where
    ih: "map_files (process_file ev rw) late paths (files1, ?log1)
       = ((files2, ?log1 @ failures rw files1 paths),
          Inr (map (\<lambda>p. \<not> isl (file_outcome rw files1 p)) paths))"
    "\<forall>q. q \<notin> set paths \<longrightarrow> map_of files2 q = map_of files1 q"
    "\<forall>p \<in> set paths. \<forall>t. file_outcome rw files1 p = Inr t
        \<longrightarrow> map_option content (map_of files2 p) = Some t"
    by blast
  have fo: "file_outcome rw files1 q = file_outcome rw files q" if "q \<in> set paths" for q
  proof (rule file_outcome_cong)
    from that d(2) have "q \<noteq> p" by auto
    then show "map_of files1 q = map_of files q" by (rule other)
  qed
  have f1: "failures rw files1 paths = failures rw files paths"
    unfolding failures_def using fo by (auto intro!: arg_cong[where f=concat])
  have m1: "map (\<lambda>p. \<not> isl (file_outcome rw files1 p)) paths = map (\<lambda>p. \<not> isl (file_outcome rw files p)) paths"
    using fo by auto
  have a: "map_files (process_file ev rw) late (p # paths) (files, log)
       = ((files2, log @ failures rw files (p # paths)),
          Inr (map (\<lambda>p. \<not> isl (file_outcome rw files p)) (p # paths)))"
    using step ih(1) f1 m1 by (simp add: failures_def)
  have b: "\<forall>q. q \<notin> set (p # paths) \<longrightarrow> map_of files2 q = map_of files q"
    using ih(2) other by auto
  have c: "\<forall>q \<in> set (p # paths). \<forall>t. file_outcome rw files q = Inr t
        \<longrightarrow> map_option content (map_of files2 q) = Some t"
  proof (intro ballI allI impI)
    fix q t assume q: "q \<in> set (p # paths)" and o: "file_outcome rw files q = Inr t"
    show "map_option content (map_of files2 q) = Some t"
    proof (cases "q = p")
      case True
      with d(2) ih(2) have "map_of files2 p = map_of files1 p" by auto
      with same[of t] o True show ?thesis by simp
    next
      case False
      with q have qp: "q \<in> set paths" by auto
      from ih(3) qp fo[OF qp] o show ?thesis by auto
    qed
  qed
  from a b c show ?case by blast
qed

lemma failures_contained:
  assumes "0 < max_workers cfg" and "distinct paths" and "quiet ev paths"
  shows "\<exists>files'. process_all_files ev cfg paths (process_file ev rewrite) (files, log)
       = ((files', log @ failures rewrite files paths),
          Inr (length paths, length (filter (\<lambda>p. \<not> isl (file_outcome rewrite files p)) paths)))
     \<and> (\<forall>q. q \<notin> set paths \<longrightarrow> map_of files' q = map_of files q)
     \<and> (\<forall>p \<in> set paths. \<forall>t. file_outcome rewrite files p = Inr t
            \<longrightarrow> map_option content (map_of files' p) = Some t)"
proof -
  from map_files_outcomes[OF assms(2,3), of rewrite "started_after ev" files log] obtain files' where
    m: "map_files (process_file ev rewrite) (started_after ev) paths (files, log)
       = ((files', log @ failures rewrite files paths),
          Inr (map (\<lambda>p. \<not> isl (file_outcome rewrite files p)) paths))"
    and r: "\<forall>q. q \<notin> set paths \<longrightarrow> map_of files' q = map_of files q"
      "\<forall>p \<in> set paths. \<forall>t. file_outcome rewrite files p = Inr t
            \<longrightarrow> map_option content (map_of files' p) = Some t"
    by blast
  have len: "length (filter (\<lambda>result. result) (map (\<lambda>p. \<not> isl (file_outcome rewrite files p)) paths))
      = length (filter (\<lambda>p. \<not> isl (file_outcome rewrite files p)) paths)"
    by (simp add: filter_map comp_def)
  show ?thesis
  proof (cases "paths = []")
    case True
    then show ?thesis by (simp add: process_all_files_def failures_def)
  next
    case False
    with assms(1) m len have "process_all_files ev cfg paths (process_file ev rewrite) (files, log)
       = ((files', log @ failures rewrite files paths),
          Inr (length paths, length (filter (\<lambda>p. \<not> isl (file_outcome rewrite files p)) paths)))"
      by (simp add: process_all_files_def)
    with r show ?thesis by blast
  qed
qed

subsection \<open>Short buffers and custom search tokens\<close>





lemma parse_official_templates:
  "parse_template 3 ([bslash] @ ''1whatsapp'' @ [bslash] @ ''2'' @ [bslash] @ ''3'')
     = Inr (TGrp 1 # map TChr ''whatsapp'' @ [TGrp 2, TGrp 3])"
  "parse_template 3 ([bslash] @ ''1whatsapp.w4b'' @ [bslash] @ ''2'' @ [bslash] @ ''3'')
     = Inr (TGrp 1 # map TChr ''whatsapp.w4b'' @ [TGrp 2, TGrp 3])"
  "parse_template 3 ([bslash] @ ''1whatsapp/w4b'' @ [bslash] @ ''2'' @ [bslash] @ ''3'')
     = Inr (TGrp 1 # map TChr ''whatsapp/w4b'' @ [TGrp 2, TGrp 3])"
  by (simp_all add: template_escape_def is_digit_def addgroup_def digit_val_def)






subsection \<open>The example jobs\<close>

lemma example_job_safe:
  "template_safe (new_package_name example_job)"
  "new_package_name_path example_job = dots_to_slashes (new_package_name example_job)"
  "\<not> is_business example_job" "CHR ''/'' \<notin> set (new_package_name example_job)"
  by code_simp+




subsection \<open>Patterns that do not match\<close>






subsection \<open>A set of replacements that cannot bring a token back\<close>

lemma sub_scan_suffix_prefix_set:
  assumes lang: "\<And>u. u \<in> lang r \<Longrightarrow> u \<noteq> []"
    and ex: "\<And>s k c. match_here r False s = Some (k, c) \<Longrightarrow> expand t (take k s) c \<in> repls"
    and ov: "\<And>repl. repl \<in> repls \<Longrightarrow> overlap_free tok repl"
  shows "\<not> adv \<Longrightarrow> tok = w @ v \<Longrightarrow> w \<noteq> [] \<Longrightarrow> prefix v (sub_scan r t adv s) \<Longrightarrow> prefix v s"
  using lang ex
proof (induction r t adv s arbitrary: v w rule: sub_scan.induct)
  case (1 r t adv)
  show ?case
  proof (cases "match_here r adv []")
    case None
    with "1.prems" show ?thesis by simp
  next
    case (Some m)
    obtain k c where m: "m = (k, c)" by (cases m)
    from match_here_text[OF Some[unfolded m]] have "[] \<in> lang r" by simp
    with "1.prems"(5) show ?thesis by fastforce
  qed
next
  case (2 r t adv x xs)
  from "2.prems"(1) have adv: "adv = False" by simp
  show ?case
  proof (cases "match_here r adv (x # xs)")
    case None
    show ?thesis
    proof (cases v)
      case Nil
      then show ?thesis by simp
    next
      case (Cons y v')
      with "2.prems"(4) None have y: "y = x" and p: "prefix v' (sub_scan r t False xs)" by auto
      from "2.prems"(2) Cons y have "tok = (w @ [x]) @ v'" by simp
      from "2.IH"(1)[OF None _ this _ p "2.prems"(5,6)] have "prefix v' xs" by simp
      with Cons y show ?thesis by simp
    qed
  next
    case (Some m)
    obtain k c where m: "m = (k, c)" by (cases m)
    from "2.prems"(6)[of "x # xs" k c] Some m adv
    have e: "expand t (take k (x # xs)) c \<in> repls" by simp
    show ?thesis
    proof (cases v)
      case Nil
      then show ?thesis by simp
    next
      case (Cons y v')
      from "2.prems"(4) Some m
      obtain rest where "prefix v (expand t (take k (x # xs)) c @ rest)" by (auto split: if_splits)
      then have "prefix v (expand t (take k (x # xs)) c) \<or> prefix (expand t (take k (x # xs)) c) v"
        by (auto simp: prefix_append)
      moreover have "suffix v tok" "v \<noteq> []" "v \<noteq> tok"
        using "2.prems"(2,3) Cons by (auto simp: suffix_def)
      ultimately show ?thesis using ov[OF e] by (auto simp: overlap_free_def)
    qed
  qed
qed

lemma sub_scan_tokens_gone:
  assumes lang: "\<And>u. u \<in> lang r \<Longrightarrow> u \<noteq> []"
    and hit: "\<And>s. prefix tok s \<Longrightarrow> match_here r False s \<noteq> None"
    and ex: "\<And>s k c. match_here r False s = Some (k, c) \<Longrightarrow> expand t (take k s) c \<in> repls"
    and ov: "\<And>repl. repl \<in> repls \<Longrightarrow> overlap_free tok repl"
    and ne: "tok \<noteq> []"
  shows "\<not> adv \<Longrightarrow> \<not> sublist tok (sub_scan r t adv s)"
  using lang hit ex
proof (induction r t adv s rule: sub_scan.induct)
  case (1 r t adv)
  show ?case
  proof (cases "match_here r adv []")
    case None
    with ne show ?thesis by simp
  next
    case (Some m)
    obtain k c where m: "m = (k, c)" by (cases m)
    from match_here_text[OF Some[unfolded m]] have "[] \<in> lang r" by simp
    with "1.prems"(2) show ?thesis by fastforce
  qed
next
  case (2 r t adv x xs)
  from "2.prems"(1) have adv: "adv = False" by simp
  show ?case
  proof (cases "match_here r adv (x # xs)")
    case None
    have ih: "\<not> sublist tok (sub_scan r t False xs)"
      by (rule "2.IH"(1)[OF None _ "2.prems"(2,3,4)]) simp
    have "\<not> prefix tok (x # sub_scan r t False xs)"
    proof
      assume a: "prefix tok (x # sub_scan r t False xs)"
      with ne obtain v where v: "tok = [x] @ v" "prefix v (sub_scan r t False xs)"
        by (cases tok) auto
      from sub_scan_suffix_prefix_set[OF "2.prems"(2) "2.prems"(4) ov _ v(1) _ v(2)]
      have "prefix v xs" by simp
      with v(1) have "prefix tok (x # xs)" by simp
      from "2.prems"(3)[OF this] None adv show False by simp
    qed
    with ih None show ?thesis by (simp add: sublist_Cons_right)
  next
    case (Some m)
    obtain k c where m: "m = (k, c)" by (cases m)
    from "2.prems"(4)[of "x # xs" k c] Some m adv
    have e: "expand t (take k (x # xs)) c \<in> repls" by simp
    let ?repl = "expand t (take k (x # xs)) c"
    from match_here_text[OF Some[unfolded m]] have "take k (x # xs) \<in> lang r" by simp
    with "2.prems"(2) have k: "k \<noteq> 0" by (cases "k = 0") auto
    have ih: "\<not> sublist tok (sub_scan r t False (drop k (x # xs)))"
      by (rule "2.IH"(3)[OF Some m[symmetric] k _ "2.prems"(2,3,4)]) simp
    have out: "sub_scan r t adv (x # xs) = ?repl @ sub_scan r t False (drop k (x # xs))"
      using Some m k by simp
    have "\<not> sublist tok (?repl @ sub_scan r t False (drop k (x # xs)))"
    proof
      assume "sublist tok (?repl @ sub_scan r t False (drop k (x # xs)))"
      then consider "sublist tok ?repl" | "sublist tok (sub_scan r t False (drop k (x # xs)))"
        | u v where "tok = u @ v" "suffix u ?repl" "prefix v (sub_scan r t False (drop k (x # xs)))"
        by (auto simp: sublist_append)
      then show False
      proof cases
        case 1
        with ov[OF e] show False by (simp add: overlap_free_def)
      next
        case 2
        with ih show False by simp
      next
        case 3
        show False
        proof (cases "u = [] \<or> v = []")
          case True
          then show False
          proof
            assume "u = []"
            with 3 have "prefix tok (sub_scan r t False (drop k (x # xs)))" by simp
            with ih show False by auto
          next
            assume "v = []"
            with 3 have "suffix tok ?repl" by simp
            with ov[OF e] show False by (auto simp: overlap_free_def)
          qed
        next
          case False
          with 3 have "prefix u tok" "u \<noteq> []" "u \<noteq> tok" by auto
          with 3(2) ov[OF e] show False by (auto simp: overlap_free_def)
        qed
      qed
    qed
    with out show ?thesis by simp
  qed
qed

subsection \<open>The rules for the official modules\<close>

lemma official_modules_plain:
  "m \<in> set OFFICIAL_MODULES \<Longrightarrow> CHR ''.'' \<notin> set m \<and> CHR ''/'' \<notin> set m"
  by (auto simp: OFFICIAL_MODULES_def)

lemma official_modules_not_prefix:
  "m \<in> set OFFICIAL_MODULES \<Longrightarrow> \<not> prefix m ''whatsapp'' \<and> \<not> prefix m ''myapp''"
  by (auto simp: OFFICIAL_MODULES_def)

lemma rmatch_alts:
  assumes "\<exists>w \<in> set ws. prefix w s" "\<And>s' c'. k s' c' \<noteq> None"
  shows "\<exists>w \<in> set ws. prefix w s \<and> rmatch (alts ws) s c k = k (drop (length w) s) c"
  using assms(1)
proof (induction ws rule: alts.induct)
  case 1
  then show ?case by simp
next
  case (2 w)
  then show ?case by (simp add: rmatch_lit)
next
  case (3 w v ws)
  show ?case
  proof (cases "prefix w s")
    case True
    with assms(2)[of "drop (length w) s" c] show ?thesis
      by (auto simp: rmatch_lit)
  next
    case False
    with "3.prems" have "\<exists>w \<in> set (v # ws). prefix w s" by auto
    from "3.IH"[OF this] False show ?thesis by (auto simp: rmatch_lit)
  qed
qed

lemma rmatch_grp_alts:
  assumes "\<exists>w \<in> set ws. prefix w s" "\<And>s' c'. k s' c' \<noteq> None"
  shows "\<exists>w \<in> set ws. prefix w s \<and> rmatch (Grp n (alts ws)) s c k = k (drop (length w) s) (c(n \<mapsto> w))"
proof -
  let ?k = "\<lambda>s' c'. k s' (c'(n \<mapsto> take (length s - length s') s))"
  from rmatch_alts[OF assms(1), of ?k c] assms(2)
  obtain w where w: "w \<in> set ws" "prefix w s"
    and r: "rmatch (alts ws) s c ?k = ?k (drop (length w) s) c"
    by auto
  from w(2) have "take (length s - length (drop (length w) s)) s = w"
    by (auto simp: prefix_def)
  with r w show ?thesis by auto
qed

lemma rmatch_official_head:
  assumes "d = dot_or_slash \<and> (d1 = CHR ''.'' \<or> d1 = CHR ''/'') \<and> (d2 = CHR ''.'' \<or> d2 = CHR ''/'')
         \<or> d = Chr CHR ''.'' \<and> d1 = CHR ''.'' \<and> d2 = CHR ''.''"
  shows "rmatch (Cat (Grp 1 d) (Cat (lit w) (Cat (Grp 2 d) r3))) (d1 # w @ d2 # s) c k
       = rmatch r3 s (c(1 \<mapsto> [d1], 2 \<mapsto> [d2])) k"
proof -
  have g: "rmatch (Grp n d) (x # s) c k = k s (c(n \<mapsto> [x]))"
    if "x = d1 \<or> x = d2" for n x s c k
    using assms that by (auto split: option.splits)
  show ?thesis
    by (simp add: g rmatch_lit del: rmatch.simps(6))
qed

text \<open>
  A rule for the official modules at an occurrence of delimiter, package name, delimiter
  and module: the match, whatever follows.
\<close>

lemma official_match:
  assumes "m \<in> set OFFICIAL_MODULES"
    and d: "d = dot_or_slash \<and> (d1 = CHR ''.'' \<or> d1 = CHR ''/'') \<and> (d2 = CHR ''.'' \<or> d2 = CHR ''/'')
         \<or> d = Chr CHR ''.'' \<and> d1 = CHR ''.'' \<and> d2 = CHR ''.''"
  shows "\<exists>a r. m @ rest = a @ r \<and> a \<in> set OFFICIAL_MODULES
      \<and> match_here (Cat (Grp 1 d) (Cat (lit w) (Cat (Grp 2 d) (Grp 3 (alts OFFICIAL_MODULES)))))
           False (d1 # w @ d2 # m @ rest)
         = Some (length w + 2 + length a, [1 \<mapsto> [d1], 2 \<mapsto> [d2], 3 \<mapsto> a])"
proof -
  let ?s0 = "d1 # w @ d2 # m @ rest"
  let ?k = "\<lambda>s' c. if False \<and> length s' = length ?s0 then None else Some (length ?s0 - length s', c)"
  have "\<exists>a \<in> set OFFICIAL_MODULES. prefix a (m @ rest)"
    by (rule bexI[OF _ assms(1)]) simp
  from rmatch_grp_alts[OF this, of ?k 3 "[1 \<mapsto> [d1], 2 \<mapsto> [d2]]"]
  obtain a where a: "a \<in> set OFFICIAL_MODULES" "prefix a (m @ rest)"
    and r: "rmatch (Grp 3 (alts OFFICIAL_MODULES)) (m @ rest) [1 \<mapsto> [d1], 2 \<mapsto> [d2]] ?k
         = ?k (drop (length a) (m @ rest)) [1 \<mapsto> [d1], 2 \<mapsto> [d2], 3 \<mapsto> a]"
    by auto
  from a(2) obtain r' where mr: "m @ rest = a @ r'" by (auto simp: prefix_def)
  have "match_here (Cat (Grp 1 d) (Cat (lit w) (Cat (Grp 2 d) (Grp 3 (alts OFFICIAL_MODULES))))) False ?s0
      = ?k (drop (length a) (m @ rest)) [1 \<mapsto> [d1], 2 \<mapsto> [d2], 3 \<mapsto> a]"
    unfolding match_here_def rmatch_official_head[OF d] by (rule r)
  also have "\<dots> = Some (length w + 2 + length a, [1 \<mapsto> [d1], 2 \<mapsto> [d2], 3 \<mapsto> a])"
    unfolding mr by simp
  finally show ?thesis using a(1) mr by blast
qed

lemma official_lang:
  assumes "u \<in> lang (official_rule d w)" "d = dot_or_slash \<or> d = Chr CHR ''.''"
  shows "\<exists>d1 d2 m. d1 \<in> set ''./'' \<and> d2 \<in> set ''./'' \<and> m \<in> set OFFICIAL_MODULES
       \<and> (d = Chr CHR ''.'' \<longrightarrow> d1 = CHR ''.'' \<and> d2 = CHR ''.'') \<and> u = d1 # w @ d2 # m"
proof -
  have "lang (alts OFFICIAL_MODULES) = set OFFICIAL_MODULES"
    by (rule lang_alts) (simp add: OFFICIAL_MODULES_def)
  with assms(1) obtain a b m where u: "u = a @ w @ b @ m" "m \<in> set OFFICIAL_MODULES"
      "a \<in> lang d" "b \<in> lang d" by auto
  have l: "\<exists>x. a = [x] \<and> x \<in> set ''./'' \<and> (d = Chr CHR ''.'' \<longrightarrow> x = CHR ''.'')" if "a \<in> lang d" for a
    using assms(2) that by auto
  from l[OF u(3)] obtain d1 where d1: "a = [d1]" "d1 \<in> set ''./''" "d = Chr CHR ''.'' \<longrightarrow> d1 = CHR ''.''"
    by blast
  from l[OF u(4)] obtain d2 where d2: "b = [d2]" "d2 \<in> set ''./''" "d = Chr CHR ''.'' \<longrightarrow> d2 = CHR ''.''"
    by blast
  have "u = d1 # w @ d2 # m" using u(1) d1(1) d2(1) by simp
  with d1(2,3) d2(2,3) u(2) show ?thesis by blast
qed

lemma official_replacement:
  assumes "match_here (official_rule d w) False s = Some (k, c)" "d = dot_or_slash \<or> d = Chr CHR ''.''"
  shows "\<exists>d1 d2 a. d1 \<in> set ''./'' \<and> d2 \<in> set ''./'' \<and> a \<in> set OFFICIAL_MODULES
       \<and> take k s = d1 # w @ d2 # a \<and> expand official_items (take k s) c = d1 # ''whatsapp'' @ d2 # a"
proof -
  from match_here_text[OF assms(1)] have k: "take k s \<in> lang (official_rule d w)"
    by simp
  from official_lang[OF k assms(2)] obtain d1 d2 m where
    m: "d1 \<in> set ''./''" "d2 \<in> set ''./''" "m \<in> set OFFICIAL_MODULES"
       "d = Chr CHR ''.'' \<longrightarrow> d1 = CHR ''.'' \<and> d2 = CHR ''.''" "take k s = d1 # w @ d2 # m"
    by blast
  obtain rest where s: "s = (d1 # w @ d2 # m) @ rest"
    using append_take_drop_id[of k s] m(5) by metis
  have d: "d = dot_or_slash \<and> (d1 = CHR ''.'' \<or> d1 = CHR ''/'') \<and> (d2 = CHR ''.'' \<or> d2 = CHR ''/'')
         \<or> d = Chr CHR ''.'' \<and> d1 = CHR ''.'' \<and> d2 = CHR ''.''"
    using assms(2) m(1,2,4) by auto
  from official_match[OF m(3) d, of rest w] obtain a r where
    a: "m @ rest = a @ r" "a \<in> set OFFICIAL_MODULES"
       "match_here (official_rule d w) False (d1 # w @ d2 # m @ rest)
          = Some (length w + 2 + length a, [1 \<mapsto> [d1], 2 \<mapsto> [d2], 3 \<mapsto> a])"
    by blast
  from a(3) assms(1) have kc: "k = length w + 2 + length a" "c = [1 \<mapsto> [d1], 2 \<mapsto> [d2], 3 \<mapsto> a]"
    unfolding s by simp_all
  have "s = (d1 # w @ d2 # a) @ r"
    unfolding s using a(1) by simp
  then have t: "take k s = d1 # w @ d2 # a"
    unfolding kc(1) by simp
  have "expand official_items (d1 # w @ d2 # a) [1 \<mapsto> [d1], 2 \<mapsto> [d2], 3 \<mapsto> a] = d1 # ''whatsapp'' @ d2 # a"
    by simp
  with m(1,2) a(2) t kc(2) show ?thesis by simp
qed

lemma sublist_needs_hd: "sublist (x # xs) m \<Longrightarrow> x \<in> set m"
  by (meson list.set_intros(1) set_mono_sublist subsetD)

lemma suffix_needs_hd: "suffix (x # xs) m \<Longrightarrow> x \<in> set m"
  by (meson list.set_intros(1) set_mono_suffix subsetD)

lemma prefix_needs: "prefix (xs @ y # ys) m \<Longrightarrow> y \<in> set m"
  by (auto simp: prefix_def)

lemma plain_prefix:
  assumes "prefix m (w @ d # a)" "d \<notin> set m"
  shows "prefix m w"
  using assms by (auto simp: prefix_append prefix_Cons)

lemma sublist_after:
  "sublist (x # xs) (pre @ ys) \<Longrightarrow> x \<notin> set pre \<Longrightarrow> sublist (x # xs) ys"
  by (induction pre) (auto simp: sublist_Cons_right)

lemma suffix_after:
  assumes "suffix (x # xs) (pre @ ys)" "x \<notin> set pre"
  shows "suffix (x # xs) ys"
proof -
  from assms(1) consider "suffix (x # xs) ys" | zs where "x # xs = zs @ ys" "suffix zs pre"
    by (auto simp: suffix_append)
  then show ?thesis
  proof cases
    case 1
    then show ?thesis .
  next
    case 2
    show ?thesis
    proof (cases zs)
      case Nil
      with 2 show ?thesis by simp
    next
      case (Cons z zs')
      with 2 have "suffix (x # zs') pre" by simp
      from suffix_needs_hd[OF this] assms(2) show ?thesis by simp
    qed
  qed
qed

lemma official_overlap_free:
  assumes m: "m \<in> set OFFICIAL_MODULES" and a: "a \<in> set OFFICIAL_MODULES"
    and d: "d1 \<in> set ''./''" "d2 \<in> set ''./''" "d3 \<in> set ''./''" "d4 \<in> set ''./''"
  shows "overlap_free (d1 # ''myapp'' @ d2 # m) (d3 # ''whatsapp'' @ d4 # a)"
proof -
  let ?tok = "d1 # ''myapp'' @ d2 # m" and ?repl = "d3 # ''whatsapp'' @ d4 # a"
  note pm = official_modules_plain[OF m] and pa = official_modules_plain[OF a]
  have dm: "d2 \<notin> set m" "d3 \<notin> set m" "d4 \<notin> set m"
    and da: "d1 \<notin> set a" "d2 \<notin> set a"
    using d pm pa by auto
  have dw: "d1 \<notin> set ''whatsapp''" "d3 \<notin> set ''myapp''"
    using d by auto
  have na: "\<not> prefix (''myapp'' @ d2 # m) a"
    using prefix_needs[of "''myapp''" d2 m a] da(2) by blast
  have nm: "\<not> prefix (''whatsapp'' @ d4 # a) m"
    using prefix_needs[of "''whatsapp''" d4 a m] dm(3) by blast
  have ne: "\<not> prefix (''whatsapp'' @ d4 # a) (''myapp'' @ d2 # m)"
       "\<not> prefix (''myapp'' @ d2 # m) (''whatsapp'' @ d4 # a)"
    by simp_all
  have 1: "\<not> sublist ?tok ?repl"
  proof
    assume "sublist ?tok ?repl"
    then have "prefix ?tok ?repl \<or> sublist ?tok (''whatsapp'' @ d4 # a)"
      by (simp only: sublist_Cons_right)
    with ne(2) have "sublist ?tok (''whatsapp'' @ d4 # a)" by (simp only: Cons_prefix_Cons) blast
    from sublist_after[OF this dw(1)] have "prefix ?tok (d4 # a) \<or> sublist ?tok a"
      by (simp only: sublist_Cons_right)
    with na sublist_needs_hd[of d1 _ a] da(1) show False by (simp only: Cons_prefix_Cons) blast
  qed
  have 2: "\<not> suffix u ?repl" if u: "prefix u ?tok" "u \<noteq> []" "u \<noteq> ?tok" for u
  proof
    assume s: "suffix u ?repl"
    from u(1,2) obtain u' where u': "u = d1 # u'" by (cases u) auto
    from s have "u = ?repl \<or> suffix u (''whatsapp'' @ d4 # a)"
      by (simp only: suffix_Cons)
    moreover have "u \<noteq> ?repl" using u(1) ne(1) by auto
    ultimately have "suffix u (''whatsapp'' @ d4 # a)" by blast
    then have "suffix (d1 # u') (''whatsapp'' @ d4 # a)" unfolding u' .
    from suffix_after[OF this dw(1)] have "d1 # u' = d4 # a \<or> suffix (d1 # u') a"
      by (simp only: suffix_Cons)
    with suffix_needs_hd[of d1 u' a] da(1) have "u' = a" by auto
    with u(1) u' have "prefix a (''myapp'' @ d2 # m)" by simp
    from plain_prefix[OF this da(2)] official_modules_not_prefix[OF a] show False by simp
  qed
  have 3: "\<not> prefix v ?repl \<and> \<not> prefix ?repl v" if v: "suffix v ?tok" "v \<noteq> []" "v \<noteq> ?tok" for v
  proof (rule ccontr)
    assume "\<not> (\<not> prefix v ?repl \<and> \<not> prefix ?repl v)"
    then have p: "prefix v ?repl \<or> prefix ?repl v" by blast
    obtain x v' where v': "v = x # v'" using v(2) by (cases v) auto
    from p v' have x: "x = d3" by auto
    from v(1,3) have "suffix (d3 # v') (''myapp'' @ d2 # m)"
      unfolding v' x by (simp only: suffix_Cons) blast
    from suffix_after[OF this dw(2)] have "d3 # v' = d2 # m \<or> suffix (d3 # v') m"
      by (simp only: suffix_Cons)
    with suffix_needs_hd[of d3 v' m] dm(2) have "v' = m" by auto
    with p v' x have "prefix m (''whatsapp'' @ d4 # a) \<or> prefix (''whatsapp'' @ d4 # a) m"
      by simp
    with nm have "prefix m (''whatsapp'' @ d4 # a)" by blast
    from plain_prefix[OF this dm(3)] official_modules_not_prefix[OF m] show False by simp
  qed
  have 4: "\<forall>u \<in> set (prefixes ?tok). u \<noteq> [] \<and> u \<noteq> ?tok \<longrightarrow> \<not> suffix u ?repl"
  proof (intro ballI impI)
    fix u assume a: "u \<in> set (prefixes ?tok)" and b: "u \<noteq> [] \<and> u \<noteq> ?tok"
    from a have p: "prefix u ?tok" by (simp only: in_set_prefixes)
    show "\<not> suffix u ?repl" by (rule 2[OF p conjunct1[OF b] conjunct2[OF b]])
  qed
  have 5: "\<forall>v \<in> set (suffixes ?tok). v \<noteq> [] \<and> v \<noteq> ?tok \<longrightarrow> \<not> prefix v ?repl \<and> \<not> prefix ?repl v"
  proof (intro ballI impI)
    fix v assume a: "v \<in> set (suffixes ?tok)" and b: "v \<noteq> [] \<and> v \<noteq> ?tok"
    from a have p: "suffix v ?tok" by (simp only: in_set_suffixes)
    show "\<not> prefix v ?repl \<and> \<not> prefix ?repl v" by (rule 3[OF p conjunct1[OF b] conjunct2[OF b]])
  qed
  show ?thesis
    unfolding overlap_free_def by (rule conjI[OF 1 conjI[OF 4 5]])
qed

lemma smali_official_primary:
  assumes "\<not> is_business cfg"
  shows "smali_official (SmaliProcessor_init cfg) (Inr s)
       = Inr (sub_scan (official_rule dot_or_slash (new_package_name_path cfg)) official_items False
               (sub_scan (official_rule (Chr CHR ''.'') (new_package_name cfg)) official_items False s))"
proof -
  let ?p = "SmaliProcessor_init cfg"
  have g3: "groups (official_package_pattern ?p) = 3" "groups (official_packageP_pattern ?p) = 3"
    by (simp_all add: SmaliProcessor_init_def)
  have p: "official_package_pattern ?p = official_rule (Chr CHR ''.'') (new_package_name cfg)"
    "official_packageP_pattern ?p = official_rule dot_or_slash (new_package_name_path cfg)"
    "is_business (smali_config ?p) = False"
    using assms by (simp_all add: SmaliProcessor_init_def)
  show ?thesis
    unfolding smali_official_def then_sub_def re_sub_def g3 p(3)
    by (simp only: if_False sum.case parse_official_templates p(1,2))
qed

lemma official_plain:
  assumes "d = dot_or_slash \<or> d = Chr CHR ''.''" "CHR ''.'' \<notin> set r" "CHR ''/'' \<notin> set r"
  shows "sub_scan (official_rule d w) t False r = r"
proof (rule sub_scan_no_text)
  fix u assume "u \<in> lang (official_rule d w)"
  from official_lang[OF this assms(1)] obtain d1 d2 m where
    u: "d1 \<in> set ''./''" "u = d1 # w @ d2 # m" by blast
  from u(1) assms(2,3) have "d1 \<notin> set r" by auto
  with sublist_needs_hd[of d1 "w @ d2 # m" r] show "\<not> sublist u r" unfolding u(2) by blast
qed

lemma official_hit:
  assumes m: "m \<in> set OFFICIAL_MODULES"
    and d: "d = dot_or_slash \<and> (d1 = CHR ''.'' \<or> d1 = CHR ''/'') \<and> (d2 = CHR ''.'' \<or> d2 = CHR ''/'')
         \<or> d = Chr CHR ''.'' \<and> d1 = CHR ''.'' \<and> d2 = CHR ''.''"
  shows "sub_scan (official_rule d w) official_items False (d1 # w @ d2 # m) = d1 # ''whatsapp'' @ d2 # m"
proof -
  from official_match[OF m d, of "[]" w] obtain a r where
    a: "m = a @ r" "a \<in> set OFFICIAL_MODULES"
       "match_here (official_rule d w) False (d1 # w @ d2 # m)
          = Some (length w + 2 + length a, [1 \<mapsto> [d1], 2 \<mapsto> [d2], 3 \<mapsto> a])"
    by auto
  let ?occ = "d1 # w @ d2 # a"
  have s: "d1 # w @ d2 # m = ?occ @ r" unfolding a(1) by simp
  have k: "length w + 2 + length a = length ?occ" by simp
  from official_modules_plain[OF m] have r: "CHR ''.'' \<notin> set r" "CHR ''/'' \<notin> set r"
    unfolding a(1) by simp_all
  have dd: "d = dot_or_slash \<or> d = Chr CHR ''.''" using d by blast
  have td: "take (length occ) (occ @ r) = occ" "drop (length occ) (occ @ r) = r" for occ :: string
    by simp_all
  have "sub_scan (official_rule d w) official_items False (?occ @ r)
      = expand official_items (take (length ?occ) (?occ @ r)) [1 \<mapsto> [d1], 2 \<mapsto> [d2], 3 \<mapsto> a]
        @ sub_scan (official_rule d w) official_items False (drop (length ?occ) (?occ @ r))"
    by (rule sub_scan_hit) (use a(3)[unfolded s k] in simp_all)
  also have "\<dots> = expand official_items ?occ [1 \<mapsto> [d1], 2 \<mapsto> [d2], 3 \<mapsto> a] @ r"
    by (simp only: td official_plain[OF dd r])
  also have "\<dots> = d1 # ''whatsapp'' @ d2 # m" unfolding a(1) by simp
  finally show ?thesis unfolding s .
qed

lemma official_gone:
  assumes m: "m \<in> set OFFICIAL_MODULES" and d: "d1 \<in> set ''./''" "d2 \<in> set ''./''"
  shows "\<not> sublist (d1 # ''myapp'' @ d2 # m)
           (sub_scan (official_rule dot_or_slash ''myapp'') official_items False s)"
proof (rule sub_scan_tokens_gone[where repls = "{d3 # ''whatsapp'' @ d4 # a | d3 d4 a.
      d3 \<in> set ''./'' \<and> d4 \<in> set ''./'' \<and> a \<in> set OFFICIAL_MODULES}"])
  fix u assume "u \<in> lang (official_rule dot_or_slash ''myapp'')"
  from official_lang[OF this] show "u \<noteq> []" by blast
next
  fix s assume "prefix (d1 # ''myapp'' @ d2 # m) s"
  then obtain rest where s: "s = d1 # ''myapp'' @ d2 # m @ rest" by (auto simp: prefix_def)
  from d have "dot_or_slash = dot_or_slash \<and> (d1 = CHR ''.'' \<or> d1 = CHR ''/'') \<and> (d2 = CHR ''.'' \<or> d2 = CHR ''/'')
         \<or> dot_or_slash = Chr CHR ''.'' \<and> d1 = CHR ''.'' \<and> d2 = CHR ''.''" by simp
  from official_match[OF m this, of rest "''myapp''"]
  show "match_here (official_rule dot_or_slash ''myapp'') False s \<noteq> None"
    unfolding s by auto
next
  fix s k c assume "match_here (official_rule dot_or_slash ''myapp'') False s = Some (k, c)"
  from official_replacement[OF this]
  show "expand official_items (take k s) c \<in> {d3 # ''whatsapp'' @ d4 # a | d3 d4 a.
      d3 \<in> set ''./'' \<and> d4 \<in> set ''./'' \<and> a \<in> set OFFICIAL_MODULES}"
    by auto
next
  fix repl assume "repl \<in> {d3 # ''whatsapp'' @ d4 # a | d3 d4 a.
      d3 \<in> set ''./'' \<and> d4 \<in> set ''./'' \<and> a \<in> set OFFICIAL_MODULES}"
  then obtain d3 d4 a where r: "repl = d3 # ''whatsapp'' @ d4 # a" "d3 \<in> set ''./''" "d4 \<in> set ''./''"
      "a \<in> set OFFICIAL_MODULES" by blast
  show "overlap_free (d1 # ''myapp'' @ d2 # m) repl"
    unfolding r(1) by (rule official_overlap_free[OF m r(4) d r(2,3)])
qed simp_all

lemma official_dots_only:
  assumes m: "m \<in> set OFFICIAL_MODULES" and d: "\<not> (d1 = CHR ''.'' \<and> d2 = CHR ''.'')"
  shows "sub_scan (official_rule (Chr CHR ''.'') ''myapp'') t False (d1 # ''myapp'' @ d2 # m)
       = d1 # ''myapp'' @ d2 # m"
proof (rule sub_scan_no_text)
  fix u assume "u \<in> lang (official_rule (Chr CHR ''.'') ''myapp'')"
  from official_lang[OF this] obtain a where
    u: "u = CHR ''.'' # ''myapp'' @ CHR ''.'' # a" by blast
  from official_modules_plain[OF m] have pm: "CHR ''.'' \<notin> set m" by simp
  show "\<not> sublist u (d1 # ''myapp'' @ d2 # m)"
  proof
    assume "sublist u (d1 # ''myapp'' @ d2 # m)"
    then have "prefix u (d1 # ''myapp'' @ d2 # m) \<or> sublist u (''myapp'' @ d2 # m)"
      by (simp only: sublist_Cons_right)
    moreover have "\<not> prefix u (d1 # ''myapp'' @ d2 # m)"
      unfolding u using d by auto
    ultimately have "sublist (CHR ''.'' # ''myapp'' @ CHR ''.'' # a) (''myapp'' @ d2 # m)"
      unfolding u by blast
    from sublist_after[OF this] have "sublist u (d2 # m)" unfolding u by simp
    then have "prefix u (d2 # m) \<or> sublist u m"
      by (simp only: sublist_Cons_right)
    moreover have "\<not> prefix u (d2 # m)"
      using prefix_needs[of "''myapp''" "CHR ''.''" a m] pm unfolding u by auto
    moreover have "\<not> sublist u m"
      using sublist_needs_hd[of "CHR ''.''" _ m] pm unfolding u by blast
    ultimately show False by blast
  qed
qed

lemma official_restored_kept:
  assumes m: "m \<in> set OFFICIAL_MODULES"
  shows "sub_scan (official_rule dot_or_slash ''myapp'') t False (CHR ''.'' # ''whatsapp'' @ CHR ''.'' # m)
       = CHR ''.'' # ''whatsapp'' @ CHR ''.'' # m"
proof (rule sub_scan_no_text)
  fix u assume "u \<in> lang (official_rule dot_or_slash ''myapp'')"
  from official_lang[OF this] obtain d3 d4 a where
    u: "u = d3 # ''myapp'' @ d4 # a" and d: "d3 \<in> set ''./''" "d4 \<in> set ''./''" by blast
  from official_modules_plain[OF m] d have pm: "d3 \<notin> set m" "d4 \<notin> set m" by auto
  from d have dw: "d3 \<notin> set ''whatsapp''" by auto
  let ?s = "CHR ''.'' # ''whatsapp'' @ CHR ''.'' # m"
  show "\<not> sublist u ?s"
  proof
    assume "sublist u ?s"
    then have "prefix u ?s \<or> sublist u (''whatsapp'' @ CHR ''.'' # m)"
      by (simp only: sublist_Cons_right)
    moreover have "\<not> prefix u ?s"
      unfolding u by simp
    ultimately have "sublist (d3 # ''myapp'' @ d4 # a) (''whatsapp'' @ CHR ''.'' # m)"
      unfolding u by blast
    from sublist_after[OF this dw] have "sublist u (CHR ''.'' # m)" unfolding u .
    then have "prefix u (CHR ''.'' # m) \<or> sublist u m"
      by (simp only: sublist_Cons_right)
    moreover have "\<not> prefix u (CHR ''.'' # m)"
      using prefix_needs[of "''myapp''" d4 a m] pm unfolding u by auto
    moreover have "\<not> sublist u m"
      using sublist_needs_hd[of d3 _ m] pm unfolding u by blast
    ultimately show False by blast
  qed
qed

lemma official_isolated:
  assumes m: "m \<in> set OFFICIAL_MODULES" and d: "d1 \<in> set ''./''" "d2 \<in> set ''./''"
  shows "smali_official (SmaliProcessor_init example_job) (Inr (d1 # ''myapp'' @ d2 # m))
       = Inr (d1 # ''whatsapp'' @ d2 # m)"
proof -
  have n: "new_package_name example_job = ''myapp''" "new_package_name_path example_job = ''myapp''"
    by (simp_all add: example_job_def)
  have two: "sub_scan (official_rule dot_or_slash ''myapp'') official_items False (d1 # ''myapp'' @ d2 # m)
      = d1 # ''whatsapp'' @ d2 # m"
    by (rule official_hit[OF m]) (use d in simp)
  have "sub_scan (official_rule dot_or_slash ''myapp'') official_items False
          (sub_scan (official_rule (Chr CHR ''.'') ''myapp'') official_items False (d1 # ''myapp'' @ d2 # m))
      = d1 # ''whatsapp'' @ d2 # m"
  proof (cases "d1 = CHR ''.'' \<and> d2 = CHR ''.''")
    case True
    have "sub_scan (official_rule (Chr CHR ''.'') ''myapp'') official_items False (d1 # ''myapp'' @ d2 # m)
        = d1 # ''whatsapp'' @ d2 # m"
      by (rule official_hit[OF m]) (use True in simp)
    then show ?thesis
      using official_restored_kept[OF m, of official_items] True by (simp only:)
  next
    case False
    show ?thesis
      by (simp only: official_dots_only[OF m False] two)
  qed
  then show ?thesis
    by (simp only: smali_official_primary[OF example_job_safe(3)] n)
qed

lemma smali_rewrite_example_gone:
  assumes m: "m \<in> set OFFICIAL_MODULES" and d: "d1 \<in> set ''./''" "d2 \<in> set ''./''"
    and out: "smali_rewrite (SmaliProcessor_init example_job) buf = Inr out"
  shows "\<not> sublist (d1 # ''myapp'' @ d2 # m) out"
proof (cases "smali_main (SmaliProcessor_init example_job) buf")
  case (Inl e)
  have "is_business (smali_config (SmaliProcessor_init example_job)) = False"
    using example_job_safe(3) by (simp add: SmaliProcessor_init_def)
  with out Inl show ?thesis
    by (simp add: smali_rewrite_def smali_official_def then_sub_def)
next
  case (Inr s)
  have n: "new_package_name example_job = ''myapp''" "new_package_name_path example_job = ''myapp''"
    by (simp_all add: example_job_def)
  from out have "out = sub_scan (official_rule dot_or_slash ''myapp'') official_items False
      (sub_scan (official_rule (Chr CHR ''.'') ''myapp'') official_items False s)"
    unfolding smali_rewrite_def Inr smali_official_primary[OF example_job_safe(3)] n by simp
  then show ?thesis using official_gone[OF m d] by simp
qed

section \<open>WhatsApp Business: bare and variant occurrences\<close>






section \<open>Official modules keep the original namespace\<close>

text \<open>
  C2: in the job that renames \<open>com.whatsapp\<close> to \<open>com.myapp\<close>, the buffer
  \<open>com/whatsapp/util/Foo\<close> is rewritten to itself: the replacement of the package
  references gives \<open>com/myapp/util/Foo\<close> and the rules for the official modules, of which
  \<open>util\<close> is one, give the original path back. A delimiter, \<open>myapp\<close>, a delimiter and an
  official module are rewritten by these rules to the same text with \<open>whatsapp\<close> for
  \<open>myapp\<close>, and whatever the content of a file, the rewritten content has no place where a
  delimiter, \<open>myapp\<close>, a delimiter and an official module follow one another.
\<close>

theorem C2_protected_module_restored:
  "smali_main (SmaliProcessor_init example_job) ''com/whatsapp/util/Foo'' = Inr ''com/myapp/util/Foo''
   \<and> smali_rewrite (SmaliProcessor_init example_job) ''com/whatsapp/util/Foo''
       = Inr ''com/whatsapp/util/Foo''
   \<and> (\<forall>m \<in> set OFFICIAL_MODULES. \<forall>d1 \<in> set ''./''. \<forall>d2 \<in> set ''./''.
        smali_official (SmaliProcessor_init example_job) (Inr (d1 # ''myapp'' @ d2 # m))
          = Inr (d1 # ''whatsapp'' @ d2 # m)
        \<and> (\<forall>buf out. smali_rewrite (SmaliProcessor_init example_job) buf = Inr out
              \<longrightarrow> \<not> sublist (d1 # ''myapp'' @ d2 # m) out))"
proof (intro conjI ballI allI impI)
  show "smali_main (SmaliProcessor_init example_job) ''com/whatsapp/util/Foo'' = Inr ''com/myapp/util/Foo''"
    by code_simp
  show "smali_rewrite (SmaliProcessor_init example_job) ''com/whatsapp/util/Foo''
       = Inr ''com/whatsapp/util/Foo''"
    by code_simp
next
  fix m d1 d2
  assume "m \<in> set OFFICIAL_MODULES" "d1 \<in> set ''./''" "d2 \<in> set ''./''"
  then show "smali_official (SmaliProcessor_init example_job) (Inr (d1 # ''myapp'' @ d2 # m))
          = Inr (d1 # ''whatsapp'' @ d2 # m)"
    by (rule official_isolated)
next
  fix m d1 d2 buf out
  assume "m \<in> set OFFICIAL_MODULES" "d1 \<in> set ''./''" "d2 \<in> set ''./''"
    "smali_rewrite (SmaliProcessor_init example_job) buf = Inr out"
  then show "\<not> sublist (d1 # ''myapp'' @ d2 # m) out"
    by (rule smali_rewrite_example_gone)
qed

text \<open>
  C2, witness: the module \<open>util\<close> between slashes, and the buffer of the claim.
\<close>

theorem C2_protected_module_restored_witness:
  "''util'' \<in> set OFFICIAL_MODULES \<and> CHR ''/'' \<in> set ''./''
   \<and> smali_official (SmaliProcessor_init example_job) (Inr ''/myapp/util'') = Inr ''/whatsapp/util''
   \<and> smali_rewrite (SmaliProcessor_init example_job) ''com/whatsapp/util/Foo''
       = Inr ''com/whatsapp/util/Foo''
   \<and> \<not> sublist ''/myapp/util'' ''com/whatsapp/util/Foo''"
proof -
  have u: "''util'' \<in> set OFFICIAL_MODULES" by (simp add: OFFICIAL_MODULES_def)
  have s: "CHR ''/'' \<in> set ''./''" by simp
  from C2_protected_module_restored
  have r: "smali_rewrite (SmaliProcessor_init example_job) ''com/whatsapp/util/Foo''
       = Inr ''com/whatsapp/util/Foo''"
    and a: "\<forall>m \<in> set OFFICIAL_MODULES. \<forall>d1 \<in> set ''./''. \<forall>d2 \<in> set ''./''.
        smali_official (SmaliProcessor_init example_job) (Inr (d1 # ''myapp'' @ d2 # m))
          = Inr (d1 # ''whatsapp'' @ d2 # m)
        \<and> (\<forall>buf out. smali_rewrite (SmaliProcessor_init example_job) buf = Inr out
              \<longrightarrow> \<not> sublist (d1 # ''myapp'' @ d2 # m) out)"
    by (rule conjunct1[OF conjunct2], rule conjunct2[OF conjunct2])
  from a[rule_format, OF u s s] r
  have "smali_official (SmaliProcessor_init example_job) (Inr (CHR ''/'' # ''myapp'' @ CHR ''/'' # ''util''))
          = Inr (CHR ''/'' # ''whatsapp'' @ CHR ''/'' # ''util'')"
    "\<not> sublist (CHR ''/'' # ''myapp'' @ CHR ''/'' # ''util'') ''com/whatsapp/util/Foo''"
    by blast+
  with u s r show ?thesis by simp
qed

section \<open>A custom search token\<close>








section \<open>An empty package name\<close>

text \<open>
  C4, as stated: building the rule list fails with a configuration error when the new
  package name is empty. It does not: both constructors accept the empty name and build
  the rule for the official modules around it, \<open>(\.)(\.)(aborthooks|...)\<close>, and the
  rules rewrite text.
\<close>

theorem C4_empty_package_rules_built:
  "official_package_pattern (SmaliProcessor_init empty_package_job) =
     Cat (Grp 1 (Chr CHR ''.'')) (Cat Eps (Cat (Grp 2 (Chr CHR ''.'')) (Grp 3 (alts OFFICIAL_MODULES))))
   \<and> smali_rewrite (SmaliProcessor_init empty_package_job) ''a..util'' = Inr ''a.whatsapp.util''
   \<and> xml_rewrite (XmlProcessor_init empty_package_job) ''a..util'' = Inr ''a.whatsapp.util''"
  by code_simp

text \<open>
  C4, amended: an empty package name is refused by \<open>validate_config\<close> at the start of
  \<open>run\<close>: no processor is built and no file is read or written. The constructors
  themselves check nothing.
\<close>

theorem C4_empty_package_run_not_started:
  "new_package_name cfg = [] \<Longrightarrow> run ev cfg root_is_dir w = (w, NotStarted)"
  by (simp add: run_def validate_config_def)

theorem C4_empty_package_run_not_started_witness:
  "new_package_name empty_package_job = []
   \<and> run rich_env empty_package_job True
        ([(''a.smali'', \<lparr>content = ''a..util'', readable = True, writable = True, room = None\<rparr>)], [])
       = (([(''a.smali'', \<lparr>content = ''a..util'', readable = True, writable = True, room = None\<rparr>)], []),
          NotStarted)"
  using C4_empty_package_run_not_started[of empty_package_job rich_env True
      "([(''a.smali'', \<lparr>content = ''a..util'', readable = True, writable = True, room = None\<rparr>)], [])"]
  by (simp add: empty_package_job_def example_job_def)

section \<open>Rewriting twice\<close>





section \<open>A file that cannot be processed\<close>

text \<open>
  Where every report can be printed, a failure on one file is contained: for a positive
  worker count and any list of distinct paths, \<open>process_all_files\<close> returns the number
  of paths and the number of paths whose own processing succeeds on the file system as
  it was, every failed path is in the reports with the exception caught, and every
  processed file has its rewritten text. This is the lemma \<open>failures_contained\<close>. In
  the scenario of the specification, ten files of which the fifth cannot be read, the
  counts are 10 and 9, also with \<open>rich\<close>. A write that fails after the file has been
  opened leaves the file cut short: on a full device it is left empty.
\<close>

lemma ten_files_run:
  "smali_process_all_files rich_env (SmaliProcessor_init example_job) (ten_files, [])
     = ((map (\<lambda>(q, h). if q = ''file05.smali'' then (q, h) else (q, h\<lparr>content := ''Lcom/myapp/Foo;''\<rparr>))
           ten_files,
         [(''file05.smali'', PermissionError)]), Inr (10, 9))"
  by code_simp

lemma full_device_run:
  "smali_process_all_files plain_env (SmaliProcessor_init example_job) (full_device_files, [])
     = ((store full_device_files ''decompiled/a.smali'' [], [(''decompiled/a.smali'', OSError)]),
        Inr (1, 0))"
  by code_simp

lemma example_rewrite:
  "smali_rewrite (SmaliProcessor_init example_job) ''Lcom/whatsapp/Foo;'' = Inr ''Lcom/myapp/Foo;''"
  by code_simp

lemma tagged_files_paths:
  "get_files ''.smali'' tagged_files
     = [''decompiled/a.smali'', ''decompiled/sub[/bold].smali'', ''decompiled/c.smali'']"
  by code_simp

text \<open>
  C6: a failure on any one file is recorded and the other files are processed. With
  \<open>rich\<close> this fails for a file whose path holds a closing tag. Of three \<open>.smali\<close> files
  the second, \<open>decompiled/sub[/bold].smali\<close>, cannot be read. In every environment where
  \<open>rich\<close> is there and the report of this failure raises \<open>MarkupError\<close>, the exception
  leaves \<open>process_file\<close> and \<open>process_all_files\<close>: no counts are returned, no failure is
  recorded, and \<open>run\<close> ends before the \<open>.xml\<close> files.
\<close>

theorem C6_report_raises_aborts:
  assumes "RICH_AVAILABLE ev"
    and "report_raises ev ''decompiled/sub[/bold].smali'' PermissionError = Some MarkupError"
  shows "snd (smali_process_all_files ev (SmaliProcessor_init example_job) (tagged_files, []))
           = Inl MarkupError
       \<and> snd (fst (smali_process_all_files ev (SmaliProcessor_init example_job) (tagged_files, []))) = []
       \<and> snd (run ev example_job True (tagged_files, [])) = Aborted MarkupError"
proof -
  let ?pf = "process_file ev (smali_rewrite (SmaliProcessor_init example_job))"
  let ?files1 = "store tagged_files ''decompiled/a.smali'' ''Lcom/myapp/Foo;''"
  let ?files2 = "store ?files1 ''decompiled/c.smali'' ''Lcom/myapp/Foo;''"
  have a: "?pf ''decompiled/a.smali'' (tagged_files, []) = ((?files1, []), Inr True)"
    by (simp add: process_file_def read_file_def write_file_def tagged_files_def example_rewrite)
  have s: "?pf ''decompiled/sub[/bold].smali'' (?files1, []) = ((?files1, []), Inl MarkupError)"
    using assms
    by (simp add: process_file_def read_file_def tagged_files_def store_def except_block_def)
  have c: "?pf ''decompiled/c.smali'' (?files1, []) = ((?files2, []), Inr True)"
    by (simp add: process_file_def read_file_def write_file_def tagged_files_def store_def example_rewrite)
  have u: "snd (run_unread ?pf (take late [''decompiled/c.smali'']) (?files1, [])) = []" for late
    by (cases late) (simp_all add: run_unread_def c)
  have m: "map_files ?pf late
      [''decompiled/a.smali'', ''decompiled/sub[/bold].smali'', ''decompiled/c.smali''] (tagged_files, [])
      = (run_unread ?pf (take late [''decompiled/c.smali'']) (?files1, []), Inl MarkupError)" for late
    by (simp add: a s)
  have w: "0 < max_workers example_job" "smali_config (SmaliProcessor_init example_job) = example_job"
    by (simp_all add: example_job_def SmaliProcessor_init_def)
  have p: "smali_process_all_files ev (SmaliProcessor_init example_job) (tagged_files, [])
      = (run_unread ?pf (take (started_after ev) [''decompiled/c.smali'']) (?files1, []), Inl MarkupError)"
    using w(1) by (simp add: smali_process_all_files_def process_all_files_def tagged_files_paths w(2) a s)
  have v: "validate_config example_job True"
    by (simp add: validate_config_def example_job_def)
  show ?thesis
    using v by (simp add: run_def p u)
qed

text \<open>
  C6, witness: an environment with \<open>rich\<close>, where the third file is not processed;
  without \<open>rich\<close> the same files give the counts 3 and 2 and the failure is recorded.
\<close>

theorem C6_report_raises_aborts_witness:
  "RICH_AVAILABLE rich_env
   \<and> report_raises rich_env ''decompiled/sub[/bold].smali'' PermissionError = Some MarkupError
   \<and> smali_process_all_files rich_env (SmaliProcessor_init example_job) (tagged_files, [])
     = ((store tagged_files ''decompiled/a.smali'' ''Lcom/myapp/Foo;'', []), Inl MarkupError)
   \<and> run rich_env example_job True (tagged_files, [])
     = ((store tagged_files ''decompiled/a.smali'' ''Lcom/myapp/Foo;'', []), Aborted MarkupError)
   \<and> smali_process_all_files plain_env (SmaliProcessor_init example_job) (tagged_files, [])
     = ((store (store tagged_files ''decompiled/a.smali'' ''Lcom/myapp/Foo;'')
           ''decompiled/c.smali'' ''Lcom/myapp/Foo;'',
         [(''decompiled/sub[/bold].smali'', PermissionError)]), Inr (3, 2))"
proof -
  have e: "RICH_AVAILABLE rich_env"
    "report_raises rich_env ''decompiled/sub[/bold].smali'' PermissionError = Some MarkupError"
    by code_simp+
  have r: "smali_process_all_files rich_env (SmaliProcessor_init example_job) (tagged_files, [])
     = ((store tagged_files ''decompiled/a.smali'' ''Lcom/myapp/Foo;'', []), Inl MarkupError)"
    "run rich_env example_job True (tagged_files, [])
     = ((store tagged_files ''decompiled/a.smali'' ''Lcom/myapp/Foo;'', []), Aborted MarkupError)"
    "smali_process_all_files plain_env (SmaliProcessor_init example_job) (tagged_files, [])
     = ((store (store tagged_files ''decompiled/a.smali'' ''Lcom/myapp/Foo;'')
           ''decompiled/c.smali'' ''Lcom/myapp/Foo;'',
         [(''decompiled/sub[/bold].smali'', PermissionError)]), Inr (3, 2))"
    by code_simp+
  from C6_report_raises_aborts[OF e] e r show ?thesis by simp
qed

section \<open>Delimiter style\<close>

text \<open>
  C7: no substitution turns a dot-delimited occurrence into a slash-delimited one or the
  other way round. Under the Business label the second rule for the official modules
  does: its pattern takes a dot or a slash on either side of the package name, and its
  replacement puts the fixed text \<open>whatsapp/w4b\<close> between the delimiters it matched,
  so that \<open>.myapp.util\<close> becomes \<open>.whatsapp/w4b.util\<close>. The first rule, which writes
  \<open>whatsapp.w4b\<close>, takes the dot-delimited occurrences before the second rule sees
  them, except where two of them overlap: with the package name \<open>utility\<close> the buffer
  \<open>.utility.utility.util\<close>, which has no slash, is rewritten to a buffer with a slash.
\<close>

theorem C7_slash_from_dots:
  "CHR ''/'' \<notin> set ''.utility.utility.util''
   \<and> smali_rewrite (SmaliProcessor_init utility_job) ''.utility.utility.util''
       = Inr ''.whatsapp.w4b.whatsapp/w4b.util''
   \<and> CHR ''/'' \<notin> set ''.myapp.util''
   \<and> re_sub (official_packageP_pattern (SmaliProcessor_init business_job))
         ([bslash] @ ''1whatsapp/w4b'' @ [bslash] @ ''2'' @ [bslash] @ ''3'') ''.myapp.util''
       = Inr ''.whatsapp/w4b.util''"
  by code_simp


text \<open>
  What the rewrite does keep: for a package name that is safe in a template, with its
  path form derived from it, a buffer without a dot is rewritten to a buffer without a
  dot, under either label; and under the WhatsApp label with a package name without a
  slash, a buffer without a slash is rewritten to a buffer without a slash.
\<close>

lemma delimiter_style_kept:
  assumes safe: "template_safe (new_package_name cfg)"
    and path: "new_package_name_path cfg = dots_to_slashes (new_package_name cfg)"
    and out: "smali_rewrite (SmaliProcessor_init cfg) b = Inr b'"
  shows "(CHR ''.'' \<notin> set b \<longrightarrow> CHR ''.'' \<notin> set b')
       \<and> (\<not> is_business cfg \<and> CHR ''/'' \<notin> set (new_package_name cfg) \<and> CHR ''/'' \<notin> set b
            \<longrightarrow> CHR ''/'' \<notin> set b')"
proof -
  let ?p = "SmaliProcessor_init cfg"
  let ?pkg = "new_package_name cfg"
  let ?path = "new_package_name_path cfg"
  have spath: "template_safe ?path" and dpath: "CHR ''.'' \<notin> set ?path"
    using safe path by (simp_all add: template_safe_path dots_to_slashes_no_dot)
  have g3: "groups (official_package_pattern ?p) = 3" "groups (official_packageP_pattern ?p) = 3"
    by (simp_all add: SmaliProcessor_init_def)
  have dot_main: "lacks (CHR ''.'') (smali_main ?p b)" if b: "CHR ''.'' \<notin> set b"
  proof -
    have b0: "lacks (CHR ''.'') (Inr b)" using b by (simp add: lacks_def)
    show ?thesis
    proof (cases "is_business cfg")
      case True
      have 1: "lacks (CHR ''.'') (then_sub (Inr b) explicit_w4b_pattern1 (''com'' @ [bslash] @ ''1'' @ ?path))"
        by (rule lacks_then_sub_template[OF b0], rule com1_template_free[OF spath dpath]) auto
      have 2: "lacks (CHR ''.'') (then_sub (then_sub (Inr b) explicit_w4b_pattern1 (''com'' @ [bslash] @ ''1'' @ ?path))
           explicit_w4b_pattern2 (''com'' @ [bslash] @ ''1'' @ ?pkg))"
        by (rule lacks_then_sub_needs[OF 1]) (auto simp: explicit_w4b_pattern2_def)
      have 3: "lacks (CHR ''.'') (then_sub (then_sub (then_sub (Inr b) explicit_w4b_pattern1 (''com'' @ [bslash] @ ''1'' @ ?path))
           explicit_w4b_pattern2 (''com'' @ [bslash] @ ''1'' @ ?pkg)) core_wa_pattern1 (''com'' @ [bslash] @ ''1whatsapp''))"
        by (rule lacks_then_sub_template[OF 2]) (auto simp: core_wa_pattern1_def template_escape_def is_digit_def addgroup_def digit_val_def)
      have 4: "lacks (CHR ''.'') (then_sub (then_sub (then_sub (then_sub (Inr b) explicit_w4b_pattern1 (''com'' @ [bslash] @ ''1'' @ ?path))
           explicit_w4b_pattern2 (''com'' @ [bslash] @ ''1'' @ ?pkg)) core_wa_pattern1 (''com'' @ [bslash] @ ''1whatsapp''))
           core_wa_pattern2 (''com'' @ [bslash] @ ''1whatsapp''))"
        by (rule lacks_then_sub_needs[OF 3]) (auto simp: core_wa_pattern2_def)
      from 4 True show ?thesis by (simp add: smali_main_def SmaliProcessor_init_def)
    next
      case False
      have 1: "lacks (CHR ''.'') (then_sub (Inr b) (package_pattern1 ?p) (''com'' @ [bslash] @ ''1'' @ ?path))"
        by (rule lacks_then_sub_template[OF b0], rule com1_template_free[OF spath dpath]) auto
      have 2: "lacks (CHR ''.'') (then_sub (then_sub (Inr b) (package_pattern1 ?p) (''com'' @ [bslash] @ ''1'' @ ?path))
            (package_pattern2 ?p) (''com'' @ [bslash] @ ''1'' @ ?pkg))"
      proof (cases "custom_search_pattern cfg \<noteq> [] \<and> CHR ''.'' \<notin> set (custom_search_pattern cfg)")
        case True
        then have "groups (package_pattern2 ?p) = 0"
          by (auto simp: SmaliProcessor_init_def groups_escape_replace filter_empty_conv)
        then have "parse_template (groups (package_pattern2 ?p)) (''com'' @ [bslash] @ ''1'' @ ?pkg) = Inl ReError"
          using parse_template_com1[OF safe, of "''com''" 0] by simp
        then show ?thesis by (intro lacks_then_sub_template[OF 1]) simp
      next
        case False
        show ?thesis
        proof (rule lacks_then_sub_needs[OF 1])
          fix u assume "u \<in> lang (package_pattern2 ?p)"
          with False \<open>\<not> is_business cfg\<close> show "CHR ''.'' \<in> set u"
            by (auto simp: SmaliProcessor_init_def lang_escape_replace split: if_splits)
        qed
      qed
      from 2 False show ?thesis by (simp add: smali_main_def SmaliProcessor_init_def)
    qed
  qed
  have dot_all: "lacks (CHR ''.'') (smali_rewrite ?p b)" if b: "CHR ''.'' \<notin> set b"
  proof (cases "is_business cfg")
    case True
    have 1: "lacks (CHR ''.'') (then_sub (smali_main ?p b) (official_package_pattern ?p)
           ([bslash] @ ''1whatsapp.w4b'' @ [bslash] @ ''2'' @ [bslash] @ ''3''))"
      by (rule lacks_then_sub_needs[OF dot_main[OF b]]) (auto simp: SmaliProcessor_init_def)
    have 2: "lacks (CHR ''.'') (then_sub (then_sub (smali_main ?p b) (official_package_pattern ?p)
           ([bslash] @ ''1whatsapp.w4b'' @ [bslash] @ ''2'' @ [bslash] @ ''3''))
           (official_packageP_pattern ?p) ([bslash] @ ''1whatsapp/w4b'' @ [bslash] @ ''2'' @ [bslash] @ ''3''))"
      by (rule lacks_then_sub_template[OF 1]) (auto simp: g3 template_escape_def is_digit_def is_octdigit_def addgroup_def digit_val_def)
    from 2 True show ?thesis by (simp add: smali_rewrite_def smali_official_def SmaliProcessor_init_def)
  next
    case False
    have 1: "lacks (CHR ''.'') (then_sub (smali_main ?p b) (official_package_pattern ?p)
           ([bslash] @ ''1whatsapp'' @ [bslash] @ ''2'' @ [bslash] @ ''3''))"
      by (rule lacks_then_sub_template[OF dot_main[OF b]]) (auto simp: g3 template_escape_def is_digit_def is_octdigit_def addgroup_def digit_val_def)
    have 2: "lacks (CHR ''.'') (then_sub (then_sub (smali_main ?p b) (official_package_pattern ?p)
           ([bslash] @ ''1whatsapp'' @ [bslash] @ ''2'' @ [bslash] @ ''3''))
           (official_packageP_pattern ?p) ([bslash] @ ''1whatsapp'' @ [bslash] @ ''2'' @ [bslash] @ ''3''))"
      by (rule lacks_then_sub_template[OF 1]) (auto simp: g3 template_escape_def is_digit_def is_octdigit_def addgroup_def digit_val_def)
    from 2 False show ?thesis by (simp add: smali_rewrite_def smali_official_def SmaliProcessor_init_def)
  qed
  have slash_all: "lacks (CHR ''/'') (smali_rewrite ?p b)"
    if nb: "\<not> is_business cfg" and pk: "CHR ''/'' \<notin> set ?pkg" and b: "CHR ''/'' \<notin> set b"
  proof -
    have b0: "lacks (CHR ''/'') (Inr b)" using b by (simp add: lacks_def)
    have 1: "lacks (CHR ''/'') (then_sub (Inr b) (package_pattern1 ?p) (''com'' @ [bslash] @ ''1'' @ ?path))"
    proof (cases "custom_search_pattern cfg \<noteq> [] \<and> CHR ''.'' \<notin> set (custom_search_pattern cfg)")
      case True
      then have "groups (package_pattern1 ?p) = 0"
        by (auto simp: SmaliProcessor_init_def groups_escape_replace filter_empty_conv)
      then have "parse_template (groups (package_pattern1 ?p)) (''com'' @ [bslash] @ ''1'' @ ?path) = Inl ReError"
        using parse_template_com1[OF spath, of "''com''" 0] by simp
      then show ?thesis by (intro lacks_then_sub_template[OF b0]) simp
    next
      case False
      show ?thesis
      proof (rule lacks_then_sub_needs[OF b0])
        fix u assume "u \<in> lang (package_pattern1 ?p)"
        with False nb show "CHR ''/'' \<in> set u"
          by (auto simp: SmaliProcessor_init_def lang_escape_replace split: if_splits)
      qed
    qed
    have 2: "lacks (CHR ''/'') (then_sub (then_sub (Inr b) (package_pattern1 ?p) (''com'' @ [bslash] @ ''1'' @ ?path))
            (package_pattern2 ?p) (''com'' @ [bslash] @ ''1'' @ ?pkg))"
      by (rule lacks_then_sub_template[OF 1], rule com1_template_free[OF safe pk]) auto
    from 2 nb have m: "lacks (CHR ''/'') (smali_main ?p b)"
      by (simp add: smali_main_def SmaliProcessor_init_def)
    have 3: "lacks (CHR ''/'') (then_sub (smali_main ?p b) (official_package_pattern ?p)
           ([bslash] @ ''1whatsapp'' @ [bslash] @ ''2'' @ [bslash] @ ''3''))"
      by (rule lacks_then_sub_template[OF m]) (auto simp: g3 template_escape_def is_digit_def is_octdigit_def addgroup_def digit_val_def)
    have 4: "lacks (CHR ''/'') (then_sub (then_sub (smali_main ?p b) (official_package_pattern ?p)
           ([bslash] @ ''1whatsapp'' @ [bslash] @ ''2'' @ [bslash] @ ''3''))
           (official_packageP_pattern ?p) ([bslash] @ ''1whatsapp'' @ [bslash] @ ''2'' @ [bslash] @ ''3''))"
      by (rule lacks_then_sub_template[OF 3]) (auto simp: g3 template_escape_def is_digit_def is_octdigit_def addgroup_def digit_val_def)
    from 4 nb show ?thesis by (simp add: smali_rewrite_def smali_official_def SmaliProcessor_init_def)
  qed
  from dot_all slash_all out show ?thesis by (auto simp: lacks_def)
qed


text \<open>The example job on a slash-delimited buffer and on a dot-delimited buffer.\<close>


lemma example_job_rewrites:
  "smali_rewrite (SmaliProcessor_init example_job) ''Lcom/whatsapp/util/Foo; Lcom/whatsapp/Bar;''
     = Inr ''Lcom/whatsapp/util/Foo; Lcom/myapp/Bar;''"
  "smali_rewrite (SmaliProcessor_init example_job) ''com.whatsapp.util.Foo com.whatsapp.Bar''
     = Inr ''com.whatsapp.util.Foo com.myapp.Bar''"
  by code_simp+

lemma delimiter_style_kept_example:
  "template_safe (new_package_name example_job)
   \<and> new_package_name_path example_job = dots_to_slashes (new_package_name example_job)
   \<and> smali_rewrite (SmaliProcessor_init example_job) ''Lcom/whatsapp/util/Foo; Lcom/whatsapp/Bar;''
       = Inr ''Lcom/whatsapp/util/Foo; Lcom/myapp/Bar;''
   \<and> CHR ''.'' \<notin> set ''Lcom/whatsapp/util/Foo; Lcom/whatsapp/Bar;''
   \<and> CHR ''.'' \<notin> set ''Lcom/whatsapp/util/Foo; Lcom/myapp/Bar;''
   \<and> smali_rewrite (SmaliProcessor_init example_job) ''com.whatsapp.util.Foo com.whatsapp.Bar''
       = Inr ''com.whatsapp.util.Foo com.myapp.Bar''
   \<and> \<not> is_business example_job \<and> CHR ''/'' \<notin> set (new_package_name example_job)
   \<and> CHR ''/'' \<notin> set ''com.whatsapp.util.Foo com.whatsapp.Bar''
   \<and> CHR ''/'' \<notin> set ''com.whatsapp.util.Foo com.myapp.Bar''"
  using delimiter_style_kept[OF example_job_safe(1,2) example_job_rewrites(1)]
    delimiter_style_kept[OF example_job_safe(1,2) example_job_rewrites(2)]
    example_job_safe example_job_rewrites
  by simp

section \<open>WhatsApp Business in markup files\<close>





section \<open>The replacement starts with \<open>com\<close>\<close>







section \<open>The sticker permission rule\<close>

text \<open>
  C10, as stated: the sticker rule changes nothing as long as \<open>com.<newPackage>\<close> does
  not contain the token. It can: with the package name \<open>whats\<close> the replacement
  \<open>com.whats\<close> does not contain \<open>com.whatsapp\<close>, but placed before \<open>app\<close> it
  makes a new \<open>com.whatsapp\<close>, which the sticker rule then rewrites.
\<close>

theorem C10_sticker_rule_fires:
  "\<not> sublist (source_token whats_job) (''com.'' @ new_package_name whats_job)
   \<and> xml_rewrite (XmlProcessor_init whats_job)
         (''android:name='' @ [dquote] @ ''com.whatsappapp.sticker.READ'' @ [dquote])
       = Inr (''android:name='' @ [dquote] @ ''com.whats.sticker.READ'' @ [dquote])
   \<and> xml_rewrite_without_sticker (XmlProcessor_init whats_job)
         (''android:name='' @ [dquote] @ ''com.whatsappapp.sticker.READ'' @ [dquote])
       = Inr (''android:name='' @ [dquote] @ ''com.whatsapp.sticker.READ'' @ [dquote])"
  by code_simp


text \<open>
  C10, amended: for every buffer, label and token, the rewrite with the sticker rule and
  the rewrite without it give the same result, provided the package name has no backslash
  (so that the replacement is the text \<open>com.<newPackage>\<close>) and the token and
  \<open>com.<newPackage>\<close> are \<open>overlap_free\<close>: the replacement does not contain the token
  and no occurrence of the token can arise where a replacement meets its surroundings.
\<close>

theorem C10_sticker_rule_redundant:
  assumes bs: "bslash \<notin> set (new_package_name cfg)"
    and ov: "overlap_free (source_token cfg) (''com.'' @ new_package_name cfg)"
  shows "xml_rewrite (XmlProcessor_init cfg) b = xml_rewrite_without_sticker (XmlProcessor_init cfg) b"
proof -
  let ?p = "XmlProcessor_init cfg"
  let ?repl = "''com.'' @ new_package_name cfg"
  let ?t = "map TChr ?repl"
  let ?b1 = "sub_scan (package_pattern ?p) ?t False b"
  have cfgp: "xml_config ?p = cfg" by (simp add: XmlProcessor_init_def)
  have p1: "parse_template g ?repl = Inr ?t" for g
    using bs by (intro parse_template_plain) auto
  have one: "xml_package_sub ?p b = Inr ?b1"
    by (simp add: xml_package_sub_def re_sub_def cfgp p1 del: append.simps)
  have gone: "\<not> sublist (source_token cfg) ?b1"
  proof (rule sub_scan_token_gone[where repl = ?repl])
    show "source_token cfg \<noteq> []" by (simp add: source_token_def)
    show "\<And>m c. expand ?t m c = ?repl" by (rule expand_map_TChr')
    show "\<And>u. u \<in> lang (package_pattern ?p) \<Longrightarrow> prefix (source_token cfg) u"
      by (rule package_pattern_lang)
    show "\<And>s adv. prefix (source_token cfg) s \<Longrightarrow> match_here (package_pattern ?p) adv s \<noteq> None"
      by (rule package_pattern_hit)
    show "overlap_free (source_token cfg) ?repl" by (rule ov)
  qed
  have p2: "parse_template g (''android:name='' @ [dquote] @ ''com.'' @ new_package_name cfg @ ''.sticker.READ'' @ [dquote])
      = Inr (map TChr (''android:name='' @ [dquote] @ ''com.'' @ new_package_name cfg @ ''.sticker.READ'' @ [dquote]))" for g
    using bs by (intro parse_template_plain) auto
  have "sub_scan (sticker_pattern ?p) t2 False ?b1 = ?b1" for t2
  proof (rule sub_scan_no_text)
    fix u assume "u \<in> lang (sticker_pattern ?p)"
    then have "sublist (source_token cfg) u" by (rule sticker_pattern_lang)
    with gone show "\<not> sublist u ?b1" by (meson sublist_order.order_trans)
  qed
  then have two: "xml_sticker_sub ?p (Inr ?b1) = Inr ?b1"
    by (simp add: xml_sticker_sub_def then_sub_def re_sub_def cfgp p2 del: append.simps)
  show ?thesis
    by (simp only: xml_rewrite_def xml_rewrite_without_sticker_def one two)
qed


text \<open>C10, witness: the example job on a permission line of a manifest.\<close>

lemma example_job_overlap_free:
  "bslash \<notin> set (new_package_name example_job)"
  "overlap_free (source_token example_job) (''com.'' @ new_package_name example_job)"
  by code_simp+

lemma example_job_sticker:
  "xml_rewrite (XmlProcessor_init example_job)
      (''<uses-permission android:name='' @ [dquote] @ ''com.whatsapp.sticker.READ'' @ [dquote] @ ''/>'')
     = Inr (''<uses-permission android:name='' @ [dquote] @ ''com.myapp.sticker.READ'' @ [dquote] @ ''/>'')"
  by code_simp

theorem C10_sticker_rule_redundant_witness:
  "bslash \<notin> set (new_package_name example_job)
   \<and> overlap_free (source_token example_job) (''com.'' @ new_package_name example_job)
   \<and> xml_rewrite_without_sticker (XmlProcessor_init example_job)
      (''<uses-permission android:name='' @ [dquote] @ ''com.whatsapp.sticker.READ'' @ [dquote] @ ''/>'')
     = Inr (''<uses-permission android:name='' @ [dquote] @ ''com.myapp.sticker.READ'' @ [dquote] @ ''/>'')"
  using C10_sticker_rule_redundant[OF example_job_overlap_free,
      of "''<uses-permission android:name='' @ [dquote] @ ''com.whatsapp.sticker.READ'' @ [dquote] @ ''/>''"]
    example_job_overlap_free example_job_sticker
  by simp

end
